theory Spec2Isabelle
  imports Main "HOL-Library.Word"
begin

unbundle bit_operations_syntax

section \<open>CacheDictionary: a direct-mapped attribute cache\<close>

text \<open>
  A shallow embedding of \<^verbatim>\<open>dbms/include/DB/Dictionaries/CacheDictionary.h\<close>.
  Machine integers (\<^verbatim>\<open>std::size_t\<close>, \<^verbatim>\<open>UInt64\<close>, \<^verbatim>\<open>id_t\<close>) are 64-bit words.
\<close>

subsection \<open>Capacity\<close>

text \<open>
  \<^verbatim>\<open>round_up_to_power_of_two\<close>: decrement, smear the highest set bit to the right,
  increment. All arithmetic is on \<^verbatim>\<open>std::size_t\<close> and wraps.
\<close>

definition round_up_to_power_of_two :: "64 word \<Rightarrow> 64 word" where
  "round_up_to_power_of_two n0 =
    (let n = n0 - 1;
         n = n OR drop_bit 1 n;
         n = n OR drop_bit 2 n;
         n = n OR drop_bit 4 n;
         n = n OR drop_bit 8 n;
         n = n OR drop_bit 16 n;
         n = n OR drop_bit 32 n
     in n + 1)"

subsection \<open>Errors\<close>

text \<open>
  Exceptions are values. The first three are the \<^verbatim>\<open>ErrorCodes\<close> this header throws;
  \<open>POSITION_OUT_OF_BOUND\<close> is what \<^verbatim>\<open>Block::getByPosition\<close> throws for a missing column.
  An access that C++ leaves undefined (an index outside an array, a null array pointer, a
  \<^verbatim>\<open>Field::get\<close> of the wrong alternative) is the error \<open>UNDEFINED_BEHAVIOUR\<close>, tagged with
  the object that was accessed.
\<close>

datatype ub = NullPointer | ArrayIndex | CellIndex | OutIndex | AttributeIndex
  | ColumnRow | FieldGet | StringRead

datatype error = BAD_ARGUMENTS | TYPE_MISMATCH | UNSUPPORTED_METHOD
  | POSITION_OUT_OF_BOUND | UNDEFINED_BEHAVIOUR ub

definition bindE :: "error + 'a \<Rightarrow> ('a \<Rightarrow> error + 'b) \<Rightarrow> error + 'b" where
  "bindE m f = (case m of Inl e \<Rightarrow> Inl e | Inr x \<Rightarrow> f x)"

subsection \<open>Data model\<close>

type_synonym id_t = "64 word"
type_synonym byte = "8 word"
type_synonym time_point = "64 word"

text \<open>
  A \<^verbatim>\<open>String\<close> is the list of its \<^verbatim>\<open>size()\<close> bytes; \<open>c_str\<close> is the buffer
  \<^verbatim>\<open>data()\<close> points to, which since C++11 ends with a terminator at \<^verbatim>\<open>data()[size()]\<close>.
  Floating-point values are kept as bit patterns (\<^verbatim>\<open>Float64\<close> 64 bits, \<^verbatim>\<open>Float32\<close> 32 bits).
\<close>

type_synonym String = "byte list"

definition c_str :: "String \<Rightarrow> byte list" where
  "c_str s = s @ [0]"

datatype AttributeType = uint8 | uint16 | uint32 | uint64 | int8 | int16 | int32 | int64
  | float32 | float64 | string

text \<open>\<^verbatim>\<open>StringRef\<close>: a pointer (\<open>None\<close> is the null pointer, otherwise the buffer it
  points to) and a length.\<close>

record StringRef =
  ref_data :: "byte list option"
  ref_size :: nat

record cell_metadata_t =
  cell_id :: id_t
  expires_at :: time_point

text \<open>
  \<^verbatim>\<open>attribute_t\<close> holds a tuple with one null value per kind and a tuple with one array
  pointer per kind. \<^verbatim>\<open>createAttributeWithType\<close> sets the component of the attribute's
  own kind only, so the other null values stay value-initialised (zero, empty string) and the
  other array pointers stay null. The model keeps the one component that is set, tagged;
  \<open>get_T\<close> is \<^verbatim>\<open>std::get<T>(attribute.null_values)\<close> and \<open>ptr_T\<close> is
  \<^verbatim>\<open>std::get<std::unique_ptr<T[]>>(attribute.arrays)\<close>.
\<close>

datatype null_values = Null_UInt8 "8 word" | Null_UInt16 "16 word" | Null_UInt32 "32 word"
  | Null_UInt64 "64 word" | Null_Int8 "8 word" | Null_Int16 "16 word" | Null_Int32 "32 word"
  | Null_Int64 "64 word" | Null_Float32 "32 word" | Null_Float64 "64 word" | Null_String String

datatype arrays = Arr_UInt8 "8 word list" | Arr_UInt16 "16 word list" | Arr_UInt32 "32 word list"
  | Arr_UInt64 "64 word list" | Arr_Int8 "8 word list" | Arr_Int16 "16 word list"
  | Arr_Int32 "32 word list" | Arr_Int64 "64 word list" | Arr_Float32 "32 word list"
  | Arr_Float64 "64 word list" | Arr_StringRef "StringRef list"

record attribute_t =
  type :: AttributeType
  null_values :: null_values
  arrays :: arrays

definition get_UInt8 :: "null_values \<Rightarrow> 8 word" where
  "get_UInt8 n = (case n of Null_UInt8 v \<Rightarrow> v | _ \<Rightarrow> 0)"
definition get_UInt16 :: "null_values \<Rightarrow> 16 word" where
  "get_UInt16 n = (case n of Null_UInt16 v \<Rightarrow> v | _ \<Rightarrow> 0)"
definition get_UInt32 :: "null_values \<Rightarrow> 32 word" where
  "get_UInt32 n = (case n of Null_UInt32 v \<Rightarrow> v | _ \<Rightarrow> 0)"
definition get_UInt64 :: "null_values \<Rightarrow> 64 word" where
  "get_UInt64 n = (case n of Null_UInt64 v \<Rightarrow> v | _ \<Rightarrow> 0)"
definition get_Int8 :: "null_values \<Rightarrow> 8 word" where
  "get_Int8 n = (case n of Null_Int8 v \<Rightarrow> v | _ \<Rightarrow> 0)"
definition get_Int16 :: "null_values \<Rightarrow> 16 word" where
  "get_Int16 n = (case n of Null_Int16 v \<Rightarrow> v | _ \<Rightarrow> 0)"
definition get_Int32 :: "null_values \<Rightarrow> 32 word" where
  "get_Int32 n = (case n of Null_Int32 v \<Rightarrow> v | _ \<Rightarrow> 0)"
definition get_Int64 :: "null_values \<Rightarrow> 64 word" where
  "get_Int64 n = (case n of Null_Int64 v \<Rightarrow> v | _ \<Rightarrow> 0)"
definition get_Float32 :: "null_values \<Rightarrow> 32 word" where
  "get_Float32 n = (case n of Null_Float32 v \<Rightarrow> v | _ \<Rightarrow> 0)"
definition get_Float64 :: "null_values \<Rightarrow> 64 word" where
  "get_Float64 n = (case n of Null_Float64 v \<Rightarrow> v | _ \<Rightarrow> 0)"
definition get_String :: "null_values \<Rightarrow> String" where
  "get_String n = (case n of Null_String v \<Rightarrow> v | _ \<Rightarrow> [])"

definition ptr_UInt8 :: "arrays \<Rightarrow> 8 word list option" where
  "ptr_UInt8 a = (case a of Arr_UInt8 xs \<Rightarrow> Some xs | _ \<Rightarrow> None)"
definition ptr_UInt16 :: "arrays \<Rightarrow> 16 word list option" where
  "ptr_UInt16 a = (case a of Arr_UInt16 xs \<Rightarrow> Some xs | _ \<Rightarrow> None)"
definition ptr_UInt32 :: "arrays \<Rightarrow> 32 word list option" where
  "ptr_UInt32 a = (case a of Arr_UInt32 xs \<Rightarrow> Some xs | _ \<Rightarrow> None)"
definition ptr_UInt64 :: "arrays \<Rightarrow> 64 word list option" where
  "ptr_UInt64 a = (case a of Arr_UInt64 xs \<Rightarrow> Some xs | _ \<Rightarrow> None)"
definition ptr_Int8 :: "arrays \<Rightarrow> 8 word list option" where
  "ptr_Int8 a = (case a of Arr_Int8 xs \<Rightarrow> Some xs | _ \<Rightarrow> None)"
definition ptr_Int16 :: "arrays \<Rightarrow> 16 word list option" where
  "ptr_Int16 a = (case a of Arr_Int16 xs \<Rightarrow> Some xs | _ \<Rightarrow> None)"
definition ptr_Int32 :: "arrays \<Rightarrow> 32 word list option" where
  "ptr_Int32 a = (case a of Arr_Int32 xs \<Rightarrow> Some xs | _ \<Rightarrow> None)"
definition ptr_Int64 :: "arrays \<Rightarrow> 64 word list option" where
  "ptr_Int64 a = (case a of Arr_Int64 xs \<Rightarrow> Some xs | _ \<Rightarrow> None)"
definition ptr_Float32 :: "arrays \<Rightarrow> 32 word list option" where
  "ptr_Float32 a = (case a of Arr_Float32 xs \<Rightarrow> Some xs | _ \<Rightarrow> None)"
definition ptr_Float64 :: "arrays \<Rightarrow> 64 word list option" where
  "ptr_Float64 a = (case a of Arr_Float64 xs \<Rightarrow> Some xs | _ \<Rightarrow> None)"
definition ptr_StringRef :: "arrays \<Rightarrow> StringRef list option" where
  "ptr_StringRef a = (case a of Arr_StringRef xs \<Rightarrow> Some xs | _ \<Rightarrow> None)"

text \<open>Reading and writing \<^verbatim>\<open>array[idx]\<close> through a \<^verbatim>\<open>unique_ptr<T[]>\<close>.\<close>

definition load :: "'a list option \<Rightarrow> nat \<Rightarrow> error + 'a" where
  "load p idx = (case p of None \<Rightarrow> Inl (UNDEFINED_BEHAVIOUR NullPointer)
     | Some xs \<Rightarrow> if idx < length xs then Inr (xs ! idx)
                  else Inl (UNDEFINED_BEHAVIOUR ArrayIndex))"

definition store :: "'a list option \<Rightarrow> nat \<Rightarrow> 'a \<Rightarrow> error + 'a list" where
  "store p idx v = (case p of None \<Rightarrow> Inl (UNDEFINED_BEHAVIOUR NullPointer)
     | Some xs \<Rightarrow> if idx < length xs then Inr (xs[idx := v])
                  else Inl (UNDEFINED_BEHAVIOUR ArrayIndex))"

record DictionaryLifetime =
  min_sec :: "64 word"
  max_sec :: "64 word"

text \<open>
  The mutable part of a \<^verbatim>\<open>CacheDictionary\<close> and the constants the operations read.
  \<open>rnd_engine\<close> is the state of the \<^verbatim>\<open>std::mt19937_64\<close> engine, kept abstract.
\<close>

record CacheDictionary =
  dict_lifetime :: DictionaryLifetime
  size_cd :: "64 word"
  attribute_index_by_name :: "(string \<times> nat) list"
  attributes :: "attribute_t list"
  cells :: "cell_metadata_t list"
  rnd_engine :: nat

subsection \<open>Collaborators\<close>

text \<open>
  \<^verbatim>\<open>Field\<close>, \<^verbatim>\<open>IColumn\<close> and \<^verbatim>\<open>Block\<close> are declared outside this header.
  A \<^verbatim>\<open>Field\<close> is a tagged value; \<^verbatim>\<open>Field::get<T>\<close> of another alternative is undefined.
  A column is either a \<^verbatim>\<open>ColumnVector<UInt64>\<close> (the only kind \<^verbatim>\<open>typeid_cast\<close> accepts for
  the key column) or any other column, given by the fields \<^verbatim>\<open>operator[]\<close> returns.
  A block is the list of its columns; it converts to \<^verbatim>\<open>false\<close> when it has none.
\<close>

datatype Field = Field_Null | Field_UInt64 "64 word" | Field_Int64 "64 word"
  | Field_Float64 "64 word" | Field_String String

datatype IColumn = ColumnVector_UInt64 "64 word list" | Column_Other "Field list"

type_synonym Block = "IColumn list"

definition field_UInt64 :: "Field \<Rightarrow> error + 64 word" where
  "field_UInt64 f = (case f of Field_UInt64 v \<Rightarrow> Inr v | _ \<Rightarrow> Inl (UNDEFINED_BEHAVIOUR FieldGet))"
definition field_Int64 :: "Field \<Rightarrow> error + 64 word" where
  "field_Int64 f = (case f of Field_Int64 v \<Rightarrow> Inr v | _ \<Rightarrow> Inl (UNDEFINED_BEHAVIOUR FieldGet))"
definition field_Float64 :: "Field \<Rightarrow> error + 64 word" where
  "field_Float64 f = (case f of Field_Float64 v \<Rightarrow> Inr v | _ \<Rightarrow> Inl (UNDEFINED_BEHAVIOUR FieldGet))"
definition field_String :: "Field \<Rightarrow> error + String" where
  "field_String f = (case f of Field_String v \<Rightarrow> Inr v | _ \<Rightarrow> Inl (UNDEFINED_BEHAVIOUR FieldGet))"

definition typeid_cast_UInt64 :: "IColumn \<Rightarrow> 64 word list option" where
  "typeid_cast_UInt64 c = (case c of ColumnVector_UInt64 xs \<Rightarrow> Some xs | Column_Other _ \<Rightarrow> None)"

definition column_at :: "IColumn \<Rightarrow> nat \<Rightarrow> error + Field" where
  "column_at c i = (case c of
      ColumnVector_UInt64 xs \<Rightarrow>
        if i < length xs then Inr (Field_UInt64 (xs ! i)) else Inl (UNDEFINED_BEHAVIOUR ColumnRow)
    | Column_Other fs \<Rightarrow>
        if i < length fs then Inr (fs ! i) else Inl (UNDEFINED_BEHAVIOUR ColumnRow))"

definition getByPosition :: "Block \<Rightarrow> nat \<Rightarrow> error + IColumn" where
  "getByPosition block n = (if n < length block then Inr (block ! n) else Inl POSITION_OUT_OF_BOUND)"

text \<open>
  What the cache is given from outside: the hash \<^verbatim>\<open>intHash64\<close>, the source
  (\<open>loadIds ids\<close> is the sequence of blocks the stream's \<^verbatim>\<open>read()\<close> returns, and
  \<^verbatim>\<open>supportsSelectiveLoad\<close>), one draw of \<^verbatim>\<open>std::uniform_int_distribution<uint64_t>{a, b}\<close>
  from an engine state (the value and the next state), the narrowing of a \<^verbatim>\<open>Float64\<close> to a
  \<^verbatim>\<open>Float32\<close>, and \<^verbatim>\<open>DB::parse<T>\<close> of a null value's text (the bit pattern of the result).
\<close>

record env =
  intHash64 :: "64 word \<Rightarrow> 64 word"
  supportsSelectiveLoad :: bool
  loadIds :: "id_t list \<Rightarrow> Block list"
  uniform_int_distribution :: "64 word \<Rightarrow> 64 word \<Rightarrow> nat \<Rightarrow> 64 word \<times> nat"
  to_Float32 :: "64 word \<Rightarrow> 32 word"
  parse :: "AttributeType \<Rightarrow> String \<Rightarrow> 64 word"

subsection \<open>Construction\<close>

text \<open>
  A schema entry: the attribute's name, its kind (the result of
  \<^verbatim>\<open>getAttributeTypeByName\<close>) and the text of its null value.
\<close>

record DictionaryAttribute =
  attr_name :: string
  attr_type :: AttributeType
  attr_null_value :: String

definition createAttributeWithType ::
  "env \<Rightarrow> 64 word \<Rightarrow> AttributeType \<Rightarrow> String \<Rightarrow> attribute_t" where
  "createAttributeWithType env sz t null_value =
    (let n = unat sz; p = parse env t null_value in
     case t of
       uint8 \<Rightarrow> \<lparr>type = t, null_values = Null_UInt8 (ucast p), arrays = Arr_UInt8 (replicate n 0)\<rparr>
     | uint16 \<Rightarrow> \<lparr>type = t, null_values = Null_UInt16 (ucast p), arrays = Arr_UInt16 (replicate n 0)\<rparr>
     | uint32 \<Rightarrow> \<lparr>type = t, null_values = Null_UInt32 (ucast p), arrays = Arr_UInt32 (replicate n 0)\<rparr>
     | uint64 \<Rightarrow> \<lparr>type = t, null_values = Null_UInt64 p, arrays = Arr_UInt64 (replicate n 0)\<rparr>
     | int8 \<Rightarrow> \<lparr>type = t, null_values = Null_Int8 (ucast p), arrays = Arr_Int8 (replicate n 0)\<rparr>
     | int16 \<Rightarrow> \<lparr>type = t, null_values = Null_Int16 (ucast p), arrays = Arr_Int16 (replicate n 0)\<rparr>
     | int32 \<Rightarrow> \<lparr>type = t, null_values = Null_Int32 (ucast p), arrays = Arr_Int32 (replicate n 0)\<rparr>
     | int64 \<Rightarrow> \<lparr>type = t, null_values = Null_Int64 p, arrays = Arr_Int64 (replicate n 0)\<rparr>
     | float32 \<Rightarrow> \<lparr>type = t, null_values = Null_Float32 (ucast p), arrays = Arr_Float32 (replicate n 0)\<rparr>
     | float64 \<Rightarrow> \<lparr>type = t, null_values = Null_Float64 p, arrays = Arr_Float64 (replicate n 0)\<rparr>
     | string \<Rightarrow> \<lparr>type = t, null_values = Null_String null_value,
                   arrays = Arr_StringRef (replicate n \<lparr>ref_data = None, ref_size = 0\<rparr>)\<rparr>)"

text \<open>\<^verbatim>\<open>std::map::emplace\<close> keeps the entry of a name that is already present.\<close>

definition emplace :: "string \<Rightarrow> nat \<Rightarrow> (string \<times> nat) list \<Rightarrow> (string \<times> nat) list" where
  "emplace k v m = (case map_of m k of None \<Rightarrow> m @ [(k, v)] | Some _ \<Rightarrow> m)"

fun createAttributes :: "env \<Rightarrow> DictionaryAttribute list \<Rightarrow> CacheDictionary \<Rightarrow> CacheDictionary" where
  "createAttributes env [] d = d"
| "createAttributes env (a # as) d =
     createAttributes env as
       (d\<lparr>attribute_index_by_name :=
            emplace (attr_name a) (length (attributes d)) (attribute_index_by_name d),
          attributes := attributes d @
            [createAttributeWithType env (size_cd d) (attr_type a) (attr_null_value a)]\<rparr>)"

text \<open>The constructor; \<open>seed\<close> is the value of \<^verbatim>\<open>getSeed()\<close>.\<close>

definition construct ::
  "env \<Rightarrow> DictionaryAttribute list \<Rightarrow> DictionaryLifetime \<Rightarrow> 64 word \<Rightarrow> nat
    \<Rightarrow> error + CacheDictionary" where
  "construct env dict_struct lifetime sz seed =
    (let n = round_up_to_power_of_two sz in
     if \<not> supportsSelectiveLoad env then Inl UNSUPPORTED_METHOD
     else Inr (createAttributes env dict_struct
       \<lparr>dict_lifetime = lifetime, size_cd = n, attribute_index_by_name = [], attributes = [],
        cells = replicate (unat n) \<lparr>cell_id = 0, expires_at = 0\<rparr>, rnd_engine = seed\<rparr>))"

subsection \<open>Cells and time\<close>

definition getCellIdx :: "env \<Rightarrow> CacheDictionary \<Rightarrow> id_t \<Rightarrow> 64 word" where
  "getCellIdx env d k = intHash64 env k AND (size_cd d - 1)"

text \<open>
  A time point of \<^verbatim>\<open>std::chrono::system_clock\<close> is a 64-bit signed count of nanoseconds
  since the epoch; \<open>time_point\<close> is that count as a 64-bit word, read with \<open>sint\<close>.
  \<^verbatim>\<open>hasTimeExpired\<close> reads the clock at every call; the reading is its first argument,
  and \<^verbatim>\<open>now() >= time_point\<close> compares the signed counts.

  \<^verbatim>\<open>std::chrono::seconds{r}\<close> converts the \<^verbatim>\<open>uint64_t\<close> draw to the signed 64-bit
  representation of seconds, and adding it to a time point converts it to nanoseconds, a
  multiplication by \<open>10^9\<close> in 64-bit signed arithmetic. Where that arithmetic overflows
  the model takes the two's complement wrap-around of the compiled code: \<open>seconds r\<close> is
  the nanosecond count \<open>r * 10^9\<close> on 64-bit words, and \<open>+\<close> on time points wraps.
\<close>

definition hasTimeExpired :: "time_point \<Rightarrow> time_point \<Rightarrow> bool" where
  "hasTimeExpired now tp = (sint tp \<le> sint now)"

definition ticks_per_second :: int where
  "ticks_per_second = 1000000000"

definition seconds :: "64 word \<Rightarrow> 64 word" where
  "seconds r = r * 1000000000"

subsection \<open>Refresh\<close>

text \<open>
  \<^verbatim>\<open>setAttributeValue\<close>. For a string the old buffer is deleted and, when the new string
  is not empty, a buffer of \<open>size + 1\<close> bytes receives the range
  \<^verbatim>\<open>[data(), data() + size + 1)\<close> of the source string.
\<close>

definition std_copy :: "byte list \<Rightarrow> nat \<Rightarrow> error + byte list" where
  "std_copy buf n = (if n \<le> length buf then Inr (take n buf)
                     else Inl (UNDEFINED_BEHAVIOUR StringRead))"

definition setAttributeValue :: "env \<Rightarrow> attribute_t \<Rightarrow> nat \<Rightarrow> Field \<Rightarrow> error + attribute_t" where
  "setAttributeValue env attribute idx v =
    (case type attribute of
       uint8 \<Rightarrow> bindE (field_UInt64 v) (\<lambda>x. bindE (store (ptr_UInt8 (arrays attribute)) idx (ucast x))
                  (\<lambda>arr. Inr (attribute\<lparr>arrays := Arr_UInt8 arr\<rparr>)))
     | uint16 \<Rightarrow> bindE (field_UInt64 v) (\<lambda>x. bindE (store (ptr_UInt16 (arrays attribute)) idx (ucast x))
                  (\<lambda>arr. Inr (attribute\<lparr>arrays := Arr_UInt16 arr\<rparr>)))
     | uint32 \<Rightarrow> bindE (field_UInt64 v) (\<lambda>x. bindE (store (ptr_UInt32 (arrays attribute)) idx (ucast x))
                  (\<lambda>arr. Inr (attribute\<lparr>arrays := Arr_UInt32 arr\<rparr>)))
     | uint64 \<Rightarrow> bindE (field_UInt64 v) (\<lambda>x. bindE (store (ptr_UInt64 (arrays attribute)) idx x)
                  (\<lambda>arr. Inr (attribute\<lparr>arrays := Arr_UInt64 arr\<rparr>)))
     | int8 \<Rightarrow> bindE (field_Int64 v) (\<lambda>x. bindE (store (ptr_Int8 (arrays attribute)) idx (ucast x))
                  (\<lambda>arr. Inr (attribute\<lparr>arrays := Arr_Int8 arr\<rparr>)))
     | int16 \<Rightarrow> bindE (field_Int64 v) (\<lambda>x. bindE (store (ptr_Int16 (arrays attribute)) idx (ucast x))
                  (\<lambda>arr. Inr (attribute\<lparr>arrays := Arr_Int16 arr\<rparr>)))
     | int32 \<Rightarrow> bindE (field_Int64 v) (\<lambda>x. bindE (store (ptr_Int32 (arrays attribute)) idx (ucast x))
                  (\<lambda>arr. Inr (attribute\<lparr>arrays := Arr_Int32 arr\<rparr>)))
     | int64 \<Rightarrow> bindE (field_Int64 v) (\<lambda>x. bindE (store (ptr_Int64 (arrays attribute)) idx x)
                  (\<lambda>arr. Inr (attribute\<lparr>arrays := Arr_Int64 arr\<rparr>)))
     | float32 \<Rightarrow> bindE (field_Float64 v) (\<lambda>x. bindE (store (ptr_Float32 (arrays attribute)) idx (to_Float32 env x))
                  (\<lambda>arr. Inr (attribute\<lparr>arrays := Arr_Float32 arr\<rparr>)))
     | float64 \<Rightarrow> bindE (field_Float64 v) (\<lambda>x. bindE (store (ptr_Float64 (arrays attribute)) idx x)
                  (\<lambda>arr. Inr (attribute\<lparr>arrays := Arr_Float64 arr\<rparr>)))
     | string \<Rightarrow> bindE (field_String v) (\<lambda>s. bindE (load (ptr_StringRef (arrays attribute)) idx)
                  (\<lambda>old. let sz = length s in
                     bindE (if sz > 0
                            then bindE (std_copy (c_str s) (sz + 1))
                                   (\<lambda>string_ptr. Inr \<lparr>ref_data = Some string_ptr, ref_size = sz\<rparr>)
                            else Inr \<lparr>ref_data = None, ref_size = 0\<rparr>)
                       (\<lambda>string_ref. bindE (store (ptr_StringRef (arrays attribute)) idx string_ref)
                          (\<lambda>arr. Inr (attribute\<lparr>arrays := Arr_StringRef arr\<rparr>))))))"

text \<open>
  The inner loop of \<^verbatim>\<open>update\<close> over the attributes, for row \<open>i\<close> of a block: column
  \<open>attribute_idx + 1\<close> of the block gives the value. An exception leaves the attributes
  written so far in place.
\<close>

fun set_row :: "env \<Rightarrow> Block \<Rightarrow> nat \<Rightarrow> nat \<Rightarrow> nat \<Rightarrow> attribute_t list
    \<Rightarrow> attribute_t list \<times> error option" where
  "set_row env block i cell_idx attribute_idx [] = ([], None)"
| "set_row env block i cell_idx attribute_idx (attribute # rest) =
    (case bindE (getByPosition block (attribute_idx + 1)) (\<lambda>attribute_column.
            bindE (column_at attribute_column i) (setAttributeValue env attribute cell_idx)) of
       Inl e \<Rightarrow> (attribute # rest, Some e)
     | Inr attribute' \<Rightarrow>
         (case set_row env block i cell_idx (Suc attribute_idx) rest of
            (rest', r) \<Rightarrow> (attribute' # rest', r)))"

text \<open>
  One row of a block: the body of the loop over \<open>i\<close> up to the call of
  \<^verbatim>\<open>on_cell_updated\<close>. \<open>now\<close> is the clock reading taken for this row. The result is
  the new state and either the exception or the slot that was written.
\<close>

definition update_row ::
  "env \<Rightarrow> time_point \<Rightarrow> Block \<Rightarrow> nat \<Rightarrow> id_t \<Rightarrow> CacheDictionary
    \<Rightarrow> CacheDictionary \<times> (error + nat)" where
  "update_row env now block i k d =
    (let cell_idx = unat (getCellIdx env d k) in
     if \<not> cell_idx < length (cells d) then (d, Inl (UNDEFINED_BEHAVIOUR CellIndex))
     else case set_row env block i cell_idx 0 (attributes d) of
         (attrs, Some e) \<Rightarrow> (d\<lparr>attributes := attrs\<rparr>, Inl e)
       | (attrs, None) \<Rightarrow>
           (case uniform_int_distribution env (min_sec (dict_lifetime d))
                   (max_sec (dict_lifetime d)) (rnd_engine d) of
              (r, g) \<Rightarrow>
                (d\<lparr>attributes := attrs,
                   cells := (cells d)[cell_idx := \<lparr>cell_id = k, expires_at = now + seconds r\<rparr>],
                   rnd_engine := g\<rparr>, Inr cell_idx)))"

text \<open>
  The loop over the rows of one block, with the callback \<open>f\<close> (\<^verbatim>\<open>on_cell_updated\<close>)
  acting on what the caller's lambda captures (\<open>acc\<close>) and reading the updated state.
  \<open>now i\<close> is the clock reading for row \<open>i\<close>.
\<close>

fun update_block :: "env \<Rightarrow> (nat \<Rightarrow> time_point)
    \<Rightarrow> (id_t \<Rightarrow> nat \<Rightarrow> CacheDictionary \<Rightarrow> 'acc \<Rightarrow> error + 'acc)
    \<Rightarrow> Block \<Rightarrow> nat \<Rightarrow> id_t list \<Rightarrow> CacheDictionary \<Rightarrow> 'acc
    \<Rightarrow> CacheDictionary \<times> (error + 'acc)" where
  "update_block env now f block i [] d acc = (d, Inr acc)"
| "update_block env now f block i (k # ks) d acc =
    (case update_row env (now i) block i k d of
       (d', Inl e) \<Rightarrow> (d', Inl e)
     | (d', Inr cell_idx) \<Rightarrow>
         (case f k cell_idx d' acc of
            Inl e \<Rightarrow> (d', Inl e)
          | Inr acc' \<Rightarrow> update_block env now f block (Suc i) ks d' acc'))"

text \<open>
  The loop \<^verbatim>\<open>while (const auto block = stream->read())\<close>: it ends at the first block
  without columns or at the end of the stream. \<open>now b i\<close> is the clock reading for row
  \<open>i\<close> of block number \<open>b\<close>.
\<close>

fun update_stream :: "env \<Rightarrow> (nat \<Rightarrow> nat \<Rightarrow> time_point)
    \<Rightarrow> (id_t \<Rightarrow> nat \<Rightarrow> CacheDictionary \<Rightarrow> 'acc \<Rightarrow> error + 'acc)
    \<Rightarrow> nat \<Rightarrow> Block list \<Rightarrow> CacheDictionary \<Rightarrow> 'acc
    \<Rightarrow> CacheDictionary \<times> (error + 'acc)" where
  "update_stream env now f b [] d acc = (d, Inr acc)"
| "update_stream env now f b (block # blocks) d acc =
    (if block = [] then (d, Inr acc)
     else case typeid_cast_UInt64 (block ! 0) of
         None \<Rightarrow> (d, Inl TYPE_MISMATCH)
       | Some ids \<Rightarrow>
           (case update_block env (now b) f block 0 ids d acc of
              (d', Inl e) \<Rightarrow> (d', Inl e)
            | (d', Inr acc') \<Rightarrow> update_stream env now f (Suc b) blocks d' acc'))"

definition update :: "env \<Rightarrow> (nat \<Rightarrow> nat \<Rightarrow> time_point) \<Rightarrow> CacheDictionary \<Rightarrow> id_t list
    \<Rightarrow> (id_t \<Rightarrow> nat \<Rightarrow> CacheDictionary \<Rightarrow> 'acc \<Rightarrow> error + 'acc) \<Rightarrow> 'acc
    \<Rightarrow> CacheDictionary \<times> (error + 'acc)" where
  "update env now d ids on_cell_updated acc =
     update_stream env now on_cell_updated 0 (loadIds env ids) d acc"

subsection \<open>Scalar lookups\<close>

text \<open>\<^verbatim>\<open>out[i] = v\<close> on a \<^verbatim>\<open>PODArray\<close> and \<^verbatim>\<open>cells[cell_idx]\<close>: plain indexing.\<close>

definition assign :: "'a list \<Rightarrow> nat \<Rightarrow> 'a \<Rightarrow> error + 'a list" where
  "assign out i v = (if i < length out then Inr (out[i := v])
                     else Inl (UNDEFINED_BEHAVIOUR OutIndex))"

definition cell_at :: "cell_metadata_t list \<Rightarrow> nat \<Rightarrow> error + cell_metadata_t" where
  "cell_at cs idx = (if idx < length cs then Inr (cs ! idx)
                     else Inl (UNDEFINED_BEHAVIOUR CellIndex))"

text \<open>
  \<^verbatim>\<open>HashMap<id_t, std::vector<std::size_t>> outdated_ids\<close> as an association list with
  one entry per key, in the order of first insertion (the hash table's iteration order is
  not specified; it only decides the order of the keys handed to the source).
  \<open>push_back_at k i\<close> is \<^verbatim>\<open>outdated_ids[k].push_back(i)\<close>, \<open>positions m k\<close> is the
  vector \<^verbatim>\<open>outdated_ids[k]\<close>, empty for a key that was not there.
\<close>

definition push_back_at :: "id_t \<Rightarrow> nat \<Rightarrow> (id_t \<times> nat list) list \<Rightarrow> (id_t \<times> nat list) list" where
  "push_back_at k i m = (case map_of m k of
      None \<Rightarrow> m @ [(k, [i])]
    | Some _ \<Rightarrow> map (\<lambda>(k', l). if k' = k then (k', l @ [i]) else (k', l)) m)"

definition positions :: "(id_t \<times> nat list) list \<Rightarrow> id_t \<Rightarrow> nat list" where
  "positions m k = (case map_of m k of None \<Rightarrow> [] | Some l \<Rightarrow> l)"

text \<open>
  The first loop of \<^verbatim>\<open>getItems<T>\<close>, under the read lock: \<open>null\<close> is
  \<^verbatim>\<open>std::get<T>(attribute.null_values)\<close>, \<open>arr\<close> is \<^verbatim>\<open>attribute_array\<close>, \<open>now i\<close>
  is the clock reading \<^verbatim>\<open>hasTimeExpired\<close> takes at position \<open>i\<close>.
\<close>

fun fetch :: "env \<Rightarrow> (nat \<Rightarrow> time_point) \<Rightarrow> CacheDictionary \<Rightarrow> 'a \<Rightarrow> 'a list option \<Rightarrow> nat
    \<Rightarrow> id_t list \<Rightarrow> 'a list \<Rightarrow> (id_t \<times> nat list) list
    \<Rightarrow> error + 'a list \<times> (id_t \<times> nat list) list" where
  "fetch env now d null arr i [] out outdated_ids = Inr (out, outdated_ids)"
| "fetch env now d null arr i (k # ks) out outdated_ids =
    (if k = 0 then
       bindE (assign out i null) (\<lambda>out'. fetch env now d null arr (Suc i) ks out' outdated_ids)
     else
       bindE (cell_at (cells d) (unat (getCellIdx env d k))) (\<lambda>cell.
         if cell_id cell \<noteq> k \<or> hasTimeExpired (now i) (expires_at cell) then
           bindE (assign out i null) (\<lambda>out'.
             fetch env now d null arr (Suc i) ks out' (push_back_at k i outdated_ids))
         else
           bindE (load arr (unat (getCellIdx env d k))) (\<lambda>v.
             bindE (assign out i v) (\<lambda>out'.
               fetch env now d null arr (Suc i) ks out' outdated_ids))))"

text \<open>The callback's loop \<^verbatim>\<open>for (out_idx : outdated_ids[id]) out[out_idx] = attribute_value\<close>.\<close>

fun set_missing :: "nat list \<Rightarrow> 'a \<Rightarrow> 'a list \<Rightarrow> error + 'a list" where
  "set_missing [] v out = Inr out"
| "set_missing (j # js) v out = bindE (assign out j v) (set_missing js v)"

definition on_cell_updated_scalar ::
  "(arrays \<Rightarrow> 'a list option) \<Rightarrow> nat \<Rightarrow> (id_t \<times> nat list) list
    \<Rightarrow> id_t \<Rightarrow> nat \<Rightarrow> CacheDictionary \<Rightarrow> 'a list \<Rightarrow> error + 'a list" where
  "on_cell_updated_scalar ptr attribute_idx outdated_ids k cell_idx d out =
     bindE (load (ptr (arrays (attributes d ! attribute_idx))) cell_idx)
       (\<lambda>attribute_value. set_missing (positions outdated_ids k) attribute_value out)"

text \<open>
  \<^verbatim>\<open>getItems<T>\<close>: \<open>get\<close> and \<open>ptr\<close> select the components of type \<open>T\<close>;
  \<open>now_r\<close> gives the clock readings of the read pass, \<open>now_u\<close> those of the refresh.
\<close>

definition getItems :: "env \<Rightarrow> (nat \<Rightarrow> time_point) \<Rightarrow> (nat \<Rightarrow> nat \<Rightarrow> time_point)
    \<Rightarrow> (null_values \<Rightarrow> 'a) \<Rightarrow> (arrays \<Rightarrow> 'a list option)
    \<Rightarrow> CacheDictionary \<Rightarrow> nat \<Rightarrow> id_t list \<Rightarrow> 'a list
    \<Rightarrow> CacheDictionary \<times> (error + 'a list)" where
  "getItems env now_r now_u get ptr d attribute_idx ids out =
    (if \<not> attribute_idx < length (attributes d) then (d, Inl (UNDEFINED_BEHAVIOUR AttributeIndex))
     else let attribute = attributes d ! attribute_idx in
       case fetch env now_r d (get (null_values attribute)) (ptr (arrays attribute)) 0 ids out [] of
         Inl e \<Rightarrow> (d, Inl e)
       | Inr (out', outdated_ids) \<Rightarrow>
           if outdated_ids = [] then (d, Inr out')
           else update env now_u d (map fst outdated_ids)
                  (on_cell_updated_scalar ptr attribute_idx outdated_ids) out')"

subsection \<open>The public getters\<close>

definition getAttributeIndex :: "CacheDictionary \<Rightarrow> string \<Rightarrow> error + nat" where
  "getAttributeIndex d attribute_name =
    (case map_of (attribute_index_by_name d) attribute_name of
       None \<Rightarrow> Inl BAD_ARGUMENTS
     | Some idx \<Rightarrow> Inr idx)"

text \<open>
  The macro \<^verbatim>\<open>DECLARE_MULTIPLE_GETTER(TYPE, LC_TYPE)\<close>: \<open>lc_type\<close> is the kind the
  getter accepts, \<open>get\<close> and \<open>ptr\<close> are the tuple components of \<open>TYPE\<close>.
\<close>

definition MULTIPLE_GETTER :: "AttributeType \<Rightarrow> (null_values \<Rightarrow> 'a) \<Rightarrow> (arrays \<Rightarrow> 'a list option)
    \<Rightarrow> env \<Rightarrow> (nat \<Rightarrow> time_point) \<Rightarrow> (nat \<Rightarrow> nat \<Rightarrow> time_point)
    \<Rightarrow> CacheDictionary \<Rightarrow> string \<Rightarrow> id_t list \<Rightarrow> 'a list
    \<Rightarrow> CacheDictionary \<times> (error + 'a list)" where
  "MULTIPLE_GETTER lc_type get ptr env now_r now_u d attribute_name ids out =
    (case getAttributeIndex d attribute_name of
       Inl e \<Rightarrow> (d, Inl e)
     | Inr idx \<Rightarrow>
         if \<not> idx < length (attributes d) then (d, Inl (UNDEFINED_BEHAVIOUR AttributeIndex))
         else if type (attributes d ! idx) \<noteq> lc_type then (d, Inl TYPE_MISMATCH)
         else getItems env now_r now_u get ptr d idx ids out)"

definition getUInt8 where "getUInt8 = MULTIPLE_GETTER uint8 get_UInt8 ptr_UInt8"
definition getUInt16 where "getUInt16 = MULTIPLE_GETTER uint16 get_UInt16 ptr_UInt16"
definition getUInt32 where "getUInt32 = MULTIPLE_GETTER uint32 get_UInt32 ptr_UInt32"
definition getUInt64 where "getUInt64 = MULTIPLE_GETTER uint64 get_UInt64 ptr_UInt64"
definition getInt8 where "getInt8 = MULTIPLE_GETTER int8 get_Int8 ptr_Int8"
definition getInt16 where "getInt16 = MULTIPLE_GETTER int16 get_Int16 ptr_Int16"
definition getInt32 where "getInt32 = MULTIPLE_GETTER int32 get_Int32 ptr_Int32"
definition getInt64 where "getInt64 = MULTIPLE_GETTER int64 get_Int64 ptr_Int64"
definition getFloat32 where "getFloat32 = MULTIPLE_GETTER float32 get_Float32 ptr_Float32"
definition getFloat64 where "getFloat64 = MULTIPLE_GETTER float64 get_Float64 ptr_Float64"

subsection \<open>String lookups\<close>

text \<open>
  Modelled from the spec: \<^verbatim>\<open>ColumnString\<close> is declared in \<^verbatim>\<open>DB/Columns/ColumnString.h\<close>,
  which is not part of this header. It is a variable-length byte column: the bytes of all rows
  in \<open>chars\<close> and the end of each row in \<open>offsets\<close>. \<^verbatim>\<open>insertData(pos, length)\<close> appends
  the \<open>length\<close> bytes at \<open>pos\<close> and one terminator byte (the byte per entry that
  \<^verbatim>\<open>total_length\<close> reserves) and records the new end. Capacity (\<^verbatim>\<open>reserve\<close>) is not
  modelled.
\<close>

record ColumnString =
  chars :: "byte list"
  offsets :: "nat list"

definition read_bytes :: "byte list option \<Rightarrow> nat \<Rightarrow> error + byte list" where
  "read_bytes pos n = (case pos of
      None \<Rightarrow> if n = 0 then Inr [] else Inl (UNDEFINED_BEHAVIOUR NullPointer)
    | Some buf \<Rightarrow> if n \<le> length buf then Inr (take n buf)
                  else Inl (UNDEFINED_BEHAVIOUR StringRead))"

definition insertData :: "byte list option \<Rightarrow> nat \<Rightarrow> ColumnString \<Rightarrow> error + ColumnString" where
  "insertData pos n out = bindE (read_bytes pos n) (\<lambda>bs.
     Inr (out\<lparr>chars := chars out @ bs @ [0],
              offsets := offsets out @ [length (chars out) + n + 1]\<rparr>))"

text \<open>The conversion of a \<^verbatim>\<open>StringRef\<close> to a \<^verbatim>\<open>String\<close>: a copy of its bytes.\<close>

definition to_String :: "StringRef \<Rightarrow> error + String" where
  "to_String r = read_bytes (ref_data r) (ref_size r)"

text \<open>
  The optimistic pass: it appends to \<open>out\<close> and stops at the first key that is not a
  hit; the flag is \<^verbatim>\<open>found_outdated_values\<close>.
\<close>

fun optimistic :: "env \<Rightarrow> (nat \<Rightarrow> time_point) \<Rightarrow> CacheDictionary \<Rightarrow> String
    \<Rightarrow> StringRef list option \<Rightarrow> nat \<Rightarrow> id_t list \<Rightarrow> ColumnString
    \<Rightarrow> error + ColumnString \<times> bool" where
  "optimistic env now d null arr i [] out = Inr (out, False)"
| "optimistic env now d null arr i (k # ks) out =
    (if k = 0 then
       bindE (insertData (Some (c_str null)) (length null) out)
         (\<lambda>out'. optimistic env now d null arr (Suc i) ks out')
     else
       bindE (cell_at (cells d) (unat (getCellIdx env d k))) (\<lambda>cell.
         if cell_id cell \<noteq> k \<or> hasTimeExpired (now i) (expires_at cell) then Inr (out, True)
         else
           bindE (load arr (unat (getCellIdx env d k))) (\<lambda>string_ref.
             bindE (insertData (ref_data string_ref) (ref_size string_ref) out)
               (\<lambda>out'. optimistic env now d null arr (Suc i) ks out'))))"

text \<open>
  The pessimistic pass. \<^verbatim>\<open>HashMap<id_t, std::size_t> outdated_ids\<close> counts the requests
  of each outdated key (an association list in the order of first insertion);
  \<^verbatim>\<open>HashMap<id_t, String> map\<close> is a finite map.
\<close>

definition increment :: "id_t \<Rightarrow> (id_t \<times> nat) list \<Rightarrow> (id_t \<times> nat) list" where
  "increment k m = (case map_of m k of
      None \<Rightarrow> m @ [(k, 1)]
    | Some _ \<Rightarrow> map (\<lambda>(k', c). if k' = k then (k', c + 1) else (k', c)) m)"

fun scan :: "env \<Rightarrow> (nat \<Rightarrow> time_point) \<Rightarrow> CacheDictionary \<Rightarrow> StringRef list option \<Rightarrow> nat
    \<Rightarrow> id_t list \<Rightarrow> (id_t \<times> nat) list \<Rightarrow> (id_t \<rightharpoonup> String) \<Rightarrow> nat
    \<Rightarrow> error + (id_t \<times> nat) list \<times> (id_t \<rightharpoonup> String) \<times> nat" where
  "scan env now d arr i [] outdated_ids map_s total_length =
     Inr (outdated_ids, map_s, total_length)"
| "scan env now d arr i (k # ks) outdated_ids map_s total_length =
    (if k = 0 then scan env now d arr (Suc i) ks outdated_ids map_s (total_length + 1)
     else
       bindE (cell_at (cells d) (unat (getCellIdx env d k))) (\<lambda>cell.
         if cell_id cell \<noteq> k \<or> hasTimeExpired (now i) (expires_at cell) then
           scan env now d arr (Suc i) ks (increment k outdated_ids) map_s total_length
         else
           bindE (load arr (unat (getCellIdx env d k))) (\<lambda>string_ref.
             bindE (to_String string_ref) (\<lambda>s.
               scan env now d arr (Suc i) ks outdated_ids (map_s(k \<mapsto> s))
                 (total_length + ref_size string_ref + 1)))))"

definition on_cell_updated_string ::
  "nat \<Rightarrow> id_t \<Rightarrow> nat \<Rightarrow> CacheDictionary \<Rightarrow> (id_t \<rightharpoonup> String) \<times> nat
    \<Rightarrow> error + (id_t \<rightharpoonup> String) \<times> nat" where
  "on_cell_updated_string attribute_idx k cell_idx d acc =
     bindE (load (ptr_StringRef (arrays (attributes d ! attribute_idx))) cell_idx)
       (\<lambda>attribute_value. bindE (to_String attribute_value)
          (\<lambda>s. Inr ((fst acc)(k \<mapsto> s), snd acc + ref_size attribute_value + 1)))"

text \<open>The last loop: one row per requested key, in request order.\<close>

fun emit :: "String \<Rightarrow> (id_t \<rightharpoonup> String) \<Rightarrow> id_t list \<Rightarrow> ColumnString \<Rightarrow> error + ColumnString" where
  "emit null map_s [] out = Inr out"
| "emit null map_s (k # ks) out =
    (let s = (case map_s k of Some s \<Rightarrow> s | None \<Rightarrow> null) in
     bindE (insertData (Some (c_str s)) (length s) out) (emit null map_s ks))"

text \<open>
  The part of \<^verbatim>\<open>getItems\<close> for strings after the optimistic pass has failed: the output
  is emptied, the keys are scanned again, the outdated ones are refreshed, the rows are
  emitted.
\<close>

definition pessimistic :: "env \<Rightarrow> (nat \<Rightarrow> time_point) \<Rightarrow> (nat \<Rightarrow> nat \<Rightarrow> time_point)
    \<Rightarrow> CacheDictionary \<Rightarrow> nat \<Rightarrow> id_t list \<Rightarrow> ColumnString
    \<Rightarrow> CacheDictionary \<times> (error + ColumnString)" where
  "pessimistic env now_p now_u d attribute_idx ids out =
    (let out0 = out\<lparr>chars := [], offsets := []\<rparr>;
         arr = ptr_StringRef (arrays (attributes d ! attribute_idx)) in
     case scan env now_p d arr 0 ids [] Map.empty 0 of
       Inl e \<Rightarrow> (d, Inl e)
     | Inr (outdated_ids, map_s, total_length) \<Rightarrow>
         (case (if outdated_ids \<noteq> []
                then update env now_u d (map fst outdated_ids)
                       (on_cell_updated_string attribute_idx) (map_s, total_length)
                else (d, Inr (map_s, total_length))) of
            (d', Inl e) \<Rightarrow> (d', Inl e)
          | (d', Inr (map_s', total_length')) \<Rightarrow>
              (d', emit (get_String (null_values (attributes d' ! attribute_idx))) map_s' ids out0)))"

definition getItems_String :: "env \<Rightarrow> (nat \<Rightarrow> time_point) \<Rightarrow> (nat \<Rightarrow> time_point)
    \<Rightarrow> (nat \<Rightarrow> nat \<Rightarrow> time_point) \<Rightarrow> CacheDictionary \<Rightarrow> nat \<Rightarrow> id_t list \<Rightarrow> ColumnString
    \<Rightarrow> CacheDictionary \<times> (error + ColumnString)" where
  "getItems_String env now_o now_p now_u d attribute_idx ids out =
    (if \<not> attribute_idx < length (attributes d) then (d, Inl (UNDEFINED_BEHAVIOUR AttributeIndex))
     else let attribute = attributes d ! attribute_idx in
       case optimistic env now_o d (get_String (null_values attribute))
              (ptr_StringRef (arrays attribute)) 0 ids out of
         Inl e \<Rightarrow> (d, Inl e)
       | Inr (out', found_outdated_values) \<Rightarrow>
           if \<not> found_outdated_values then (d, Inr out')
           else pessimistic env now_p now_u d attribute_idx ids out')"

definition getString :: "env \<Rightarrow> (nat \<Rightarrow> time_point) \<Rightarrow> (nat \<Rightarrow> time_point)
    \<Rightarrow> (nat \<Rightarrow> nat \<Rightarrow> time_point) \<Rightarrow> CacheDictionary \<Rightarrow> string \<Rightarrow> id_t list \<Rightarrow> ColumnString
    \<Rightarrow> CacheDictionary \<times> (error + ColumnString)" where
  "getString env now_o now_p now_u d attribute_name ids out =
    (case getAttributeIndex d attribute_name of
       Inl e \<Rightarrow> (d, Inl e)
     | Inr idx \<Rightarrow>
         if \<not> idx < length (attributes d) then (d, Inl (UNDEFINED_BEHAVIOUR AttributeIndex))
         else if type (attributes d ! idx) \<noteq> string then (d, Inl TYPE_MISMATCH)
         else getItems_String env now_o now_p now_u d idx ids out)"

text \<open>The rows of a string column, without their terminators.\<close>

fun rows_from :: "nat \<Rightarrow> byte list \<Rightarrow> nat list \<Rightarrow> String list" where
  "rows_from start cs [] = []"
| "rows_from start cs (e # es) = take (e - 1 - start) (drop start cs) # rows_from e cs es"

definition rows :: "ColumnString \<Rightarrow> String list" where
  "rows c = rows_from 0 (chars c) (offsets c)"

subsection \<open>Classification of a requested key\<close>

text \<open>
  The condition \<^verbatim>\<open>cell.id != id || hasTimeExpired(cell.expires_at)\<close> of the lookups, for
  key \<open>k\<close> and the clock reading \<open>t\<close>; \<open>miss\<close> is the same for position \<open>j\<close> of a
  batch, where key 0 is never looked up.
\<close>

definition outdated :: "env \<Rightarrow> CacheDictionary \<Rightarrow> time_point \<Rightarrow> id_t \<Rightarrow> bool" where
  "outdated env d t k \<longleftrightarrow>
     cell_id (cells d ! unat (getCellIdx env d k)) \<noteq> k \<or>
     hasTimeExpired t (expires_at (cells d ! unat (getCellIdx env d k)))"

definition miss :: "env \<Rightarrow> (nat \<Rightarrow> time_point) \<Rightarrow> CacheDictionary \<Rightarrow> id_t list \<Rightarrow> nat \<Rightarrow> bool" where
  "miss env now d ids j \<longleftrightarrow> ids ! j \<noteq> 0 \<and> outdated env d (now j) (ids ! j)"

subsection \<open>Auxiliary notions for the properties\<close>

text \<open>Two results agree: the same exception, or values related by \<open>R\<close>.\<close>

definition rel_result :: "('a \<Rightarrow> 'b \<Rightarrow> bool) \<Rightarrow> error + 'a \<Rightarrow> error + 'b \<Rightarrow> bool" where
  "rel_result R ra rb \<longleftrightarrow>
     (\<exists>e. ra = Inl e \<and> rb = Inl e) \<or> (\<exists>a b. ra = Inr a \<and> rb = Inr b \<and> R a b)"

text \<open>
  A callback for \<^verbatim>\<open>update\<close> that records, under the key of each row, the value read from
  the slot the row has just written: \<^verbatim>\<open>map[id] = attribute_array[cell_idx]\<close>. The map it
  returns holds the refreshed value of every key the source delivered.
\<close>

definition record_value :: "(arrays \<Rightarrow> 'a list option) \<Rightarrow> nat \<Rightarrow> id_t \<Rightarrow> nat
    \<Rightarrow> CacheDictionary \<Rightarrow> (id_t \<rightharpoonup> 'a) \<Rightarrow> error + (id_t \<rightharpoonup> 'a)" where
  "record_value ptr attribute_idx k cell_idx d m =
     bindE (load (ptr (arrays (attributes d ! attribute_idx))) cell_idx)
       (\<lambda>attribute_value. Inr (m(k \<mapsto> attribute_value)))"

text \<open>
  The value a lookup owes to position \<open>i\<close> of a batch: the null value for key 0; for a key
  that is not a hit, the value the refresh delivered for it (\<open>m\<close>) or else the null value;
  for a hit, the value resident in the key's slot of the column \<open>arr\<close>.
\<close>

definition value_for :: "env \<Rightarrow> (nat \<Rightarrow> time_point) \<Rightarrow> CacheDictionary \<Rightarrow> 'a \<Rightarrow> 'a list option
    \<Rightarrow> (id_t \<rightharpoonup> 'a) \<Rightarrow> id_t list \<Rightarrow> nat \<Rightarrow> 'a \<Rightarrow> bool" where
  "value_for env now d null arr m ids i v \<longleftrightarrow>
     (if ids ! i = 0 then v = null
      else if miss env now d ids i then v = (case m (ids ! i) of Some x \<Rightarrow> x | None \<Rightarrow> null)
      else load arr (unat (getCellIdx env d (ids ! i))) = Inr v)"

text \<open>
  The refresh a scalar lookup performs: none when no position is a miss; otherwise one
  refresh for the distinct keys of the missed positions, which leads from \<open>d\<close> to \<open>d'\<close>
  and delivers the values \<open>m\<close>.
\<close>

definition refresh_of :: "env \<Rightarrow> (nat \<Rightarrow> time_point) \<Rightarrow> (nat \<Rightarrow> nat \<Rightarrow> time_point)
    \<Rightarrow> (arrays \<Rightarrow> 'a list option) \<Rightarrow> nat \<Rightarrow> CacheDictionary \<Rightarrow> id_t list
    \<Rightarrow> CacheDictionary \<Rightarrow> (id_t \<rightharpoonup> 'a) \<Rightarrow> bool" where
  "refresh_of env now_r now_u ptr idx d ids d' m \<longleftrightarrow>
     (if \<exists>j < length ids. miss env now_r d ids j
      then \<exists>req. set req = {ids ! j |j. j < length ids \<and> miss env now_r d ids j} \<and>
             distinct req \<and>
             update env now_u d req (record_value ptr idx) Map.empty = (d', Inr m)
      else d' = d \<and> m = Map.empty)"

text \<open>
  The output \<open>a\<close> of a scalar lookup during its refresh, against the values \<open>m\<close> delivered
  so far: the array of the read pass, \<open>out1\<close>, overwritten at the missed positions whose
  key has been delivered.
\<close>

definition patched :: "id_t list \<Rightarrow> (nat \<Rightarrow> bool) \<Rightarrow> 'a list \<Rightarrow> 'a list \<Rightarrow> (id_t \<rightharpoonup> 'a) \<Rightarrow> bool" where
  "patched ids missed out1 a m \<longleftrightarrow> length a = length out1 \<and>
     (\<forall>j < length out1. a ! j =
        (if j < length ids \<and> missed j
         then (case m (ids ! j) of Some v \<Rightarrow> v | None \<Rightarrow> out1 ! j) else out1 ! j))"

text \<open>
  A string column after the rows \<open>ss\<close> have been appended, one \<^verbatim>\<open>insertData\<close> each, and
  the bytes resident for key \<open>k\<close>: the string in the key's slot of the column \<open>arr\<close>.
\<close>

fun insert_rows :: "String list \<Rightarrow> ColumnString \<Rightarrow> ColumnString" where
  "insert_rows [] c = c"
| "insert_rows (s # ss) c =
     insert_rows ss (c\<lparr>chars := chars c @ s @ [0],
                       offsets := offsets c @ [length (chars c) + length s + 1]\<rparr>)"

definition resident :: "env \<Rightarrow> CacheDictionary \<Rightarrow> StringRef list option \<Rightarrow> id_t \<Rightarrow> error + String" where
  "resident env d arr k = bindE (load arr (unat (getCellIdx env d k))) to_String"

text \<open>
  The row a string lookup owes to a position whose key is \<open>k\<close>, given whether the key is
  outdated (\<open>out_of_date\<close>) and the strings \<open>m\<close> the refresh delivered. For a non-zero
  key: the delivered string if there is one, else the null value for an outdated key and the
  resident string for a hit. For key 0: the null value, when the refresh delivered nothing
  for key 0.
\<close>

definition row_for :: "env \<Rightarrow> CacheDictionary \<Rightarrow> String \<Rightarrow> StringRef list option
    \<Rightarrow> (id_t \<rightharpoonup> String) \<Rightarrow> id_t \<Rightarrow> bool \<Rightarrow> String \<Rightarrow> bool" where
  "row_for env d null arr m k out_of_date s \<longleftrightarrow>
     (if k = 0 then m k = None \<longrightarrow> s = null
      else case m k of
          Some x \<Rightarrow> s = x
        | None \<Rightarrow> if out_of_date then s = null else resident env d arr k = Inr s)"

text \<open>
  The rows \<open>ss\<close> a string lookup emits for the batch \<open>ids\<close>: one row per position, the
  row owed to the position's key, where a key counts as outdated when every position that
  requests it is classified so under the clock readings \<open>now\<close>; equal keys get equal rows.
\<close>

definition rows_for :: "env \<Rightarrow> (nat \<Rightarrow> time_point) \<Rightarrow> CacheDictionary \<Rightarrow> String
    \<Rightarrow> StringRef list option \<Rightarrow> (id_t \<rightharpoonup> String) \<Rightarrow> id_t list \<Rightarrow> String list \<Rightarrow> bool" where
  "rows_for env now d null arr m ids ss \<longleftrightarrow>
     length ss = length ids \<and>
     (\<forall>i < length ids. row_for env d null arr m (ids ! i)
          (\<forall>j < length ids. ids ! j = ids ! i \<longrightarrow> miss env now d ids j) (ss ! i)) \<and>
     (\<forall>i < length ids. \<forall>j < length ids. ids ! i = ids ! j \<longrightarrow> ss ! i = ss ! j)"

text \<open>
  What no operation changes once the cache is constructed: the capacity, the lifetime
  settings, the name index, the kinds and null values of the attributes and the number of
  cells.
\<close>

definition frame :: "CacheDictionary \<Rightarrow> CacheDictionary \<Rightarrow> bool" where
  "frame d d' \<longleftrightarrow> size_cd d' = size_cd d \<and> dict_lifetime d' = dict_lifetime d \<and>
     attribute_index_by_name d' = attribute_index_by_name d \<and>
     map type (attributes d') = map type (attributes d) \<and>
     map null_values (attributes d') = map null_values (attributes d) \<and>
     length (cells d') = length (cells d)"

text \<open>
  The refresh a string lookup performs in its pessimistic pass: none when no position is
  outdated; otherwise one refresh for the distinct keys of the outdated positions, which
  leads from \<open>d\<close> to \<open>d'\<close> and delivers the strings \<open>m\<close>.
\<close>

definition string_refresh_of :: "env \<Rightarrow> (nat \<Rightarrow> time_point) \<Rightarrow> (nat \<Rightarrow> nat \<Rightarrow> time_point)
    \<Rightarrow> nat \<Rightarrow> CacheDictionary \<Rightarrow> id_t list \<Rightarrow> CacheDictionary \<Rightarrow> (id_t \<rightharpoonup> String) \<Rightarrow> bool" where
  "string_refresh_of env now_p now_u idx d ids d' m \<longleftrightarrow>
     (if \<exists>j < length ids. miss env now_p d ids j
      then \<exists>req n. set req = {ids ! j |j. j < length ids \<and> miss env now_p d ids j} \<and>
             distinct req \<and>
             update env now_u d req (on_cell_updated_string idx) (Map.empty, 0) = (d', Inr (m, n))
      else d' = d \<and> m = Map.empty)"

subsection \<open>Contracts of the collaborators\<close>

text \<open>
  \<^verbatim>\<open>std::uniform_int_distribution{a, b}\<close> returns a value of the closed interval
  \<open>[a, b]\<close> whenever \<open>a \<le> b\<close>.
\<close>

definition uniform_int_contract :: "env \<Rightarrow> bool" where
  "uniform_int_contract env \<longleftrightarrow>
     (\<forall>a b g. a \<le> b \<longrightarrow> a \<le> fst (uniform_int_distribution env a b g)
                         \<and> fst (uniform_int_distribution env a b g) \<le> b)"

text \<open>The errors a row of a refresh can raise before the callback runs.\<close>

definition row_error :: "error \<Rightarrow> bool" where
  "row_error e \<longleftrightarrow> e \<in> {POSITION_OUT_OF_BOUND, UNDEFINED_BEHAVIOUR NullPointer,
     UNDEFINED_BEHAVIOUR ArrayIndex, UNDEFINED_BEHAVIOUR FieldGet,
     UNDEFINED_BEHAVIOUR StringRead, UNDEFINED_BEHAVIOUR ColumnRow,
     UNDEFINED_BEHAVIOUR CellIndex}"

definition is_ub :: "error \<Rightarrow> bool" where
  "is_ub e \<longleftrightarrow> (\<exists>u. e = UNDEFINED_BEHAVIOUR u)"

subsection \<open>A small instance\<close>

text \<open>
  An instance for concrete evaluation: the identity as hash, a source that answers every
  request with the given stream of blocks, a distribution that returns its lower bound, and
  the cache of capacity 4 with the attributes \<open>x\<close> (\<open>uint32\<close>, null value 0) and
  \<open>s\<close> (\<open>string\<close>, null value the one byte \<open>110\<close>), lifetime \<open>(10, 20)\<close>.
\<close>

definition env0 :: "Block list \<Rightarrow> env" where
  "env0 stream = \<lparr>intHash64 = (\<lambda>k. k), supportsSelectiveLoad = True,
     loadIds = (\<lambda>ids. stream), uniform_int_distribution = (\<lambda>a b g. (a, Suc g)),
     to_Float32 = ucast, parse = (\<lambda>t s. 0)\<rparr>"

definition schema0 :: "DictionaryAttribute list" where
  "schema0 = [\<lparr>attr_name = ''x'', attr_type = uint32, attr_null_value = []\<rparr>,
              \<lparr>attr_name = ''s'', attr_type = string, attr_null_value = [110]\<rparr>]"

definition empty_ref :: StringRef where
  "empty_ref = \<lparr>ref_data = None, ref_size = 0\<rparr>"

definition empty_cell :: cell_metadata_t where
  "empty_cell = \<lparr>cell_id = 0, expires_at = 0\<rparr>"

definition cache0 :: CacheDictionary where
  "cache0 = \<lparr>dict_lifetime = \<lparr>min_sec = 10, max_sec = 20\<rparr>, size_cd = 4,
     attribute_index_by_name = [(''x'', 0), (''s'', 1)],
     attributes =
       [\<lparr>type = uint32, null_values = Null_UInt32 0, arrays = Arr_UInt32 [0, 0, 0, 0]\<rparr>,
        \<lparr>type = string, null_values = Null_String [110],
         arrays = Arr_StringRef [empty_ref, empty_ref, empty_ref, empty_ref]\<rparr>],
     cells = [empty_cell, empty_cell, empty_cell, empty_cell],
     rnd_engine = 0\<rparr>"

text \<open>A block with one row: key \<open>k\<close>, \<open>x = v\<close>, \<open>s = bs\<close>.\<close>

definition row_block :: "id_t \<Rightarrow> 64 word \<Rightarrow> String \<Rightarrow> Block" where
  "row_block k v bs = [ColumnVector_UInt64 [k], Column_Other [Field_UInt64 v],
                        Column_Other [Field_String bs]]"

text \<open>The instance after key 1 has been installed at instant 100 with \<open>x = 7\<close>, \<open>s = ''a''\<close>.\<close>

definition cache1 :: CacheDictionary where
  "cache1 = \<lparr>dict_lifetime = \<lparr>min_sec = 10, max_sec = 20\<rparr>, size_cd = 4,
     attribute_index_by_name = [(''x'', 0), (''s'', 1)],
     attributes =
       [\<lparr>type = uint32, null_values = Null_UInt32 0, arrays = Arr_UInt32 [0, 7, 0, 0]\<rparr>,
        \<lparr>type = string, null_values = Null_String [110],
         arrays = Arr_StringRef
           [empty_ref, \<lparr>ref_data = Some [97, 0], ref_size = 1\<rparr>, empty_ref, empty_ref]\<rparr>],
     cells = [empty_cell, \<lparr>cell_id = 1, expires_at = 10000000100\<rparr>, empty_cell, empty_cell],
     rnd_engine = 1\<rparr>"

text \<open>Clock readings for the instance: every reading is the instant 100.\<close>

definition clock0 :: "nat \<Rightarrow> time_point" where
  "clock0 i = 100"

definition clock0u :: "nat \<Rightarrow> nat \<Rightarrow> time_point" where
  "clock0u b i = 100"

text \<open>A block whose key column is not a \<^verbatim>\<open>ColumnVector<UInt64>\<close>.\<close>

definition bad_block :: Block where
  "bad_block = [Column_Other [Field_UInt64 1], Column_Other [Field_UInt64 7],
                Column_Other [Field_String [97]]]"

text \<open>A block with a row for key 0 (\<open>x = 5\<close>, \<open>s = ''z''\<close>) and a row for key 1.\<close>

definition zero_block :: Block where
  "zero_block = [ColumnVector_UInt64 [0, 1], Column_Other [Field_UInt64 5, Field_UInt64 7],
     Column_Other [Field_String [122], Field_String [97]]]"

definition empty_column :: ColumnString where
  "empty_column = \<lparr>chars = [], offsets = []\<rparr>"

text \<open>A string column that holds the one row \<open>''q''\<close>.\<close>

definition q_column :: ColumnString where
  "q_column = \<lparr>chars = [113, 0], offsets = [2]\<rparr>"

text \<open>Clock readings that pass the instant 10000000100 between position 0 and position 1.\<close>

definition clock_late :: "nat \<Rightarrow> time_point" where
  "clock_late i = (if i = 0 then 100 else 10000000100)"

text \<open>The instance with the lifetime \<open>(10^10, 10^10)\<close> seconds.\<close>

definition cache_long :: CacheDictionary where
  "cache_long = cache0\<lparr>dict_lifetime := \<lparr>min_sec = 10000000000, max_sec = 10000000000\<rparr>\<rparr>"

text \<open>
  \<open>cache1\<close> after key 5, which shares slot 1 with key 1, has been installed at instant 100
  with \<open>x = 9\<close>, \<open>s = ''b''\<close>.
\<close>

definition cache5 :: CacheDictionary where
  "cache5 = \<lparr>dict_lifetime = \<lparr>min_sec = 10, max_sec = 20\<rparr>, size_cd = 4,
     attribute_index_by_name = [(''x'', 0), (''s'', 1)],
     attributes =
       [\<lparr>type = uint32, null_values = Null_UInt32 0, arrays = Arr_UInt32 [0, 9, 0, 0]\<rparr>,
        \<lparr>type = string, null_values = Null_String [110],
         arrays = Arr_StringRef
           [empty_ref, \<lparr>ref_data = Some [98, 0], ref_size = 1\<rparr>, empty_ref, empty_ref]\<rparr>],
     cells = [empty_cell, \<lparr>cell_id = 5, expires_at = 10000000100\<rparr>, empty_cell, empty_cell],
     rnd_engine = 2\<rparr>"

text \<open>
  \<open>cache0\<close> after a refresh has installed the rows of \<open>zero_block\<close> at instant 100:
  key 0 in slot 0 with \<open>s = ''z''\<close> and key 1 in slot 1.
\<close>

definition cache_z :: CacheDictionary where
  "cache_z = \<lparr>dict_lifetime = \<lparr>min_sec = 10, max_sec = 20\<rparr>, size_cd = 4,
     attribute_index_by_name = [(''x'', 0), (''s'', 1)],
     attributes =
       [\<lparr>type = uint32, null_values = Null_UInt32 0, arrays = Arr_UInt32 [5, 7, 0, 0]\<rparr>,
        \<lparr>type = string, null_values = Null_String [110],
         arrays = Arr_StringRef
           [\<lparr>ref_data = Some [122, 0], ref_size = 1\<rparr>,
            \<lparr>ref_data = Some [97, 0], ref_size = 1\<rparr>, empty_ref, empty_ref]\<rparr>],
     cells = [\<lparr>cell_id = 0, expires_at = 10000000100\<rparr>,
              \<lparr>cell_id = 1, expires_at = 10000000100\<rparr>, empty_cell, empty_cell],
     rnd_engine = 2\<rparr>"

(*DEFS-END*)

section \<open>Properties\<close>

subsection \<open>Rounding the requested size\<close>

lemma smear_step:
  fixes x y :: "64 word"
  assumes "\<And>i. bit y i \<longleftrightarrow> (\<exists>j. i \<le> j \<and> j < i + k \<and> bit x j)"
  shows "bit (y OR drop_bit k y) i \<longleftrightarrow> (\<exists>j. i \<le> j \<and> j < i + 2 * k \<and> bit x j)"
proof
  assume "bit (y OR drop_bit k y) i"
  then have "bit y i \<or> bit y (k + i)" by (simp add: bit_or_iff bit_drop_bit_eq)
  then show "\<exists>j. i \<le> j \<and> j < i + 2 * k \<and> bit x j"
    unfolding assms by (elim disjE exE) (rule_tac x=j in exI, simp)+
next
  assume "\<exists>j. i \<le> j \<and> j < i + 2 * k \<and> bit x j"
  then obtain j where j: "i \<le> j" "j < i + 2 * k" "bit x j" by blast
  show "bit (y OR drop_bit k y) i"
  proof (cases "j < i + k")
    case True
    with j have "bit y i" unfolding assms by blast
    then show ?thesis by (simp add: bit_or_iff)
  next
    case False
    with j have "k + i \<le> j \<and> j < (k + i) + k \<and> bit x j" by simp
    then have "bit y (k + i)" unfolding assms by blast
    then show ?thesis by (simp add: bit_or_iff bit_drop_bit_eq)
  qed
qed

lemma bit_nat_imp_ge: "bit (m::nat) j \<Longrightarrow> 2 ^ j \<le> m"
proof -
  assume "bit m j"
  then have "odd (m div 2 ^ j)" by (simp add: bit_nat_def)
  then have "m div 2 ^ j \<noteq> 0" by (rule_tac notI) simp
  then show ?thesis by (simp add: div_eq_0_iff not_less)
qed

lemma ge_imp_bit_nat:
  assumes "2 ^ m \<le> (n::nat)" shows "\<exists>j\<ge>m. bit n j"
proof (rule ccontr)
  assume "\<not> (\<exists>j\<ge>m. bit n j)"
  then have "take_bit m n = n"
    by (intro bit_eqI) (auto simp: bit_take_bit_iff not_le)
  then have "n < 2 ^ m" by (simp add: take_bit_nat_eq_self_iff)
  with assms show False by simp
qed

lemma high_bits_zero:
  fixes x :: "64 word"
  assumes "unat x < 2 ^ k" "bit x j"
  shows "j < k"
proof -
  from assms(2) have "bit (unat x) j" by (simp add: bit_unsigned_iff)
  then have "2 ^ j \<le> unat x" by (rule bit_nat_imp_ge)
  with assms(1) have "(2::nat) ^ j < 2 ^ k" by linarith
  then show ?thesis by (simp add: power_strict_increasing_iff)
qed

lemma low_bound_bit:
  fixes x :: "64 word"
  assumes "2 ^ m \<le> unat x"
  shows "\<exists>j. m \<le> j \<and> j < 64 \<and> bit x j"
proof -
  from ge_imp_bit_nat [OF assms] obtain j where "m \<le> j" "bit (unat x) j" by blast
  then have "bit x j" by (simp add: bit_unsigned_iff)
  moreover from this have "j < 64" using bit_imp_le_length [of x j] by simp
  ultimately show ?thesis using \<open>m \<le> j\<close> by blast
qed

lemma unat_exp64: "k \<le> 63 \<Longrightarrow> unat ((2::64 word) ^ k) = 2 ^ k"
proof -
  assume k: "k \<le> 63"
  have "(0::64 word) < 2 ^ k" using k by (simp add: word_2p_lem word_size)
  then have "uint ((2::64 word) ^ k) = 2 ^ k" by (rule uint_2p)
  then have "int (unat ((2::64 word) ^ k)) = int (2 ^ k)" by simp
  then show ?thesis by (simp only: of_nat_eq_iff)
qed

lemma bit_smear:
  fixes x :: "64 word"
  shows "bit (round_up_to_power_of_two (x + 1) - 1) i \<longleftrightarrow> (\<exists>j. i \<le> j \<and> j < i + 64 \<and> bit x j)"
proof -
  define y0 where "y0 = x"
  define y1 where "y1 = y0 OR drop_bit 1 y0"
  define y2 where "y2 = y1 OR drop_bit 2 y1"
  define y3 where "y3 = y2 OR drop_bit 4 y2"
  define y4 where "y4 = y3 OR drop_bit 8 y3"
  define y5 where "y5 = y4 OR drop_bit 16 y4"
  define y6 where "y6 = y5 OR drop_bit 32 y5"
  have b0: "\<And>i. bit y0 i \<longleftrightarrow> (\<exists>j. i \<le> j \<and> j < i + 1 \<and> bit x j)"
    unfolding y0_def by (auto simp: less_Suc_eq_le)
  have b1: "\<And>i. bit y1 i \<longleftrightarrow> (\<exists>j. i \<le> j \<and> j < i + 2 \<and> bit x j)"
    unfolding y1_def using smear_step [of y0 1 x, OF b0] by simp
  have b2: "\<And>i. bit y2 i \<longleftrightarrow> (\<exists>j. i \<le> j \<and> j < i + 4 \<and> bit x j)"
    unfolding y2_def using smear_step [of y1 2 x, OF b1] by simp
  have b3: "\<And>i. bit y3 i \<longleftrightarrow> (\<exists>j. i \<le> j \<and> j < i + 8 \<and> bit x j)"
    unfolding y3_def using smear_step [of y2 4 x, OF b2] by simp
  have b4: "\<And>i. bit y4 i \<longleftrightarrow> (\<exists>j. i \<le> j \<and> j < i + 16 \<and> bit x j)"
    unfolding y4_def using smear_step [of y3 8 x, OF b3] by simp
  have b5: "\<And>i. bit y5 i \<longleftrightarrow> (\<exists>j. i \<le> j \<and> j < i + 32 \<and> bit x j)"
    unfolding y5_def using smear_step [of y4 16 x, OF b4] by simp
  have b6: "\<And>i. bit y6 i \<longleftrightarrow> (\<exists>j. i \<le> j \<and> j < i + 64 \<and> bit x j)"
    unfolding y6_def using smear_step [of y5 32 x, OF b5] by simp
  have "round_up_to_power_of_two (x + 1) - 1 = y6"
    by (simp add: round_up_to_power_of_two_def Let_def y6_def y5_def y4_def y3_def y2_def y1_def y0_def)
  then show ?thesis using b6 by simp
qed

lemma round_up_mask:
  fixes x :: "64 word"
  assumes lo: "k = 0 \<or> 2 ^ (k - 1) \<le> unat x" and hi: "unat x < 2 ^ k"
  shows "round_up_to_power_of_two (x + 1) = 2 ^ k"
proof -
  have "round_up_to_power_of_two (x + 1) - 1 = mask k"
  proof (rule bit_word_eqI)
    fix n assume n: "n < LENGTH(64)"
    show "bit (round_up_to_power_of_two (x + 1) - 1) n = bit (mask k :: 64 word) n"
    proof (cases "n < k")
      case True
      with lo have "2 ^ (k - 1) \<le> unat x" by auto
      from low_bound_bit [OF this] obtain j where "k - 1 \<le> j" "j < 64" "bit x j" by blast
      with True have "n \<le> j \<and> j < n + 64 \<and> bit x j" by simp
      then have "bit (round_up_to_power_of_two (x + 1) - 1) n" unfolding bit_smear by blast
      then show ?thesis using True n by (simp add: bit_mask_iff)
    next
      case False
      have "\<not> bit (round_up_to_power_of_two (x + 1) - 1) n"
        unfolding bit_smear using high_bits_zero [OF hi] False by force
      then show ?thesis using False by (simp add: bit_mask_iff)
    qed
  qed
  then have "round_up_to_power_of_two (x + 1) = mask k + 1" by (metis diff_add_cancel)
  then show ?thesis by (simp add: inc_mask_eq_exp)
qed


text \<open>
  C7 (amended). For every requested size \<open>n\<close> with \<open>1 \<le> n \<le> 2^63\<close> the capacity
  computed by \<open>round_up_to_power_of_two\<close> is a power of two \<open>2^k\<close> (so at least 1), it is
  not below \<open>n\<close>, and it is the least such power: \<open>2^k < 2 * n\<close>.
\<close>

theorem round_up_to_power_of_two_least:
  assumes "n \<noteq> 0" and "unat n \<le> 2 ^ 63"
  shows "\<exists>k. k \<le> 63 \<and> round_up_to_power_of_two n = 2 ^ k \<and>
           unat (round_up_to_power_of_two n) = 2 ^ k \<and>
           unat n \<le> 2 ^ k \<and> 2 ^ k < 2 * unat n"
proof -
  define x where "x = n - 1"
  have ux: "unat x = unat n - 1" unfolding x_def using assms(1) by (rule unat_minus_one)
  have npos: "0 < unat n" using assms(1) by (simp add: unat_gt_0)
  have n: "n = x + 1" by (simp add: x_def)
  define k where "k = (LEAST k. unat x < 2 ^ k)"
  have x63: "unat x < 2 ^ 63" using ux npos assms(2) by linarith
  then have hi: "unat x < 2 ^ k" unfolding k_def by (rule LeastI)
  have k63: "k \<le> 63" unfolding k_def using x63 by (rule Least_le)
  have lo: "k = 0 \<or> 2 ^ (k - 1) \<le> unat x"
  proof (cases "k = 0")
    case False
    then have "k - 1 < k" by simp
    then have "\<not> unat x < 2 ^ (k - 1)" unfolding k_def by (rule not_less_Least)
    then show ?thesis by simp
  qed simp
  have r: "round_up_to_power_of_two n = 2 ^ k" unfolding n using lo hi by (rule round_up_mask)
  have u: "unat (round_up_to_power_of_two n) = 2 ^ k" unfolding r using k63 by (rule unat_exp64)
  have le: "unat n \<le> 2 ^ k" using hi ux npos by linarith
  have lt: "(2::nat) ^ k < 2 * unat n"
  proof (cases "k = 0")
    case True
    then show ?thesis using npos by simp
  next
    case False
    with lo have "2 ^ (k - 1) \<le> unat x" by simp
    moreover have "(2::nat) ^ k = 2 * 2 ^ (k - 1)" using False by (cases k) simp_all
    ultimately show ?thesis using ux npos by linarith
  qed
  show ?thesis using k63 r u le lt by blast
qed

theorem round_up_to_power_of_two_least_witness:
  "(5::64 word) \<noteq> 0 \<and> unat (5::64 word) \<le> 2 ^ 63 \<and>
   (\<exists>k. k \<le> 63 \<and> round_up_to_power_of_two 5 = 2 ^ k \<and>
      unat (round_up_to_power_of_two 5) = 2 ^ k \<and>
      unat (5::64 word) \<le> 2 ^ k \<and> 2 ^ k < 2 * unat (5::64 word))"
proof -
  have h1: "(5::64 word) \<noteq> 0" by simp
  have h2: "unat (5::64 word) \<le> 2 ^ 63" by simp
  from round_up_to_power_of_two_least [OF h1 h2] h1 h2 show ?thesis by blast
qed

text \<open>
  C7 as stated fails at the requested size 0: the decrement wraps to all ones and the
  increment wraps back to 0, so the capacity is 0, which is neither a power of two nor
  at least 1.
\<close>

theorem round_up_to_power_of_two_zero:
  "round_up_to_power_of_two 0 = 0 \<and> \<not> 1 \<le> unat (round_up_to_power_of_two 0)"
  by (simp add: round_up_to_power_of_two_def Let_def)

subsection \<open>Exceptions\<close>

lemma bindE_simps [simp]:
  "bindE (Inl e) f = Inl e" "bindE (Inr x) f = f x"
  by (simp_all add: bindE_def)

lemma bindE_eq_Inr: "bindE m f = Inr y \<longleftrightarrow> (\<exists>x. m = Inr x \<and> f x = Inr y)"
  by (cases m) simp_all

lemma bindE_eq_Inl: "bindE m f = Inl e \<longleftrightarrow> m = Inl e \<or> (\<exists>x. m = Inr x \<and> f x = Inl e)"
  by (cases m) simp_all

lemma store_Inl: "store p idx v = Inl e \<Longrightarrow> row_error e"
  by (auto simp: store_def row_error_def split: option.splits if_splits)

lemma load_Inl: "load p idx = Inl e \<Longrightarrow> row_error e"
  by (auto simp: load_def row_error_def split: option.splits if_splits)

lemma field_Inl:
  "field_UInt64 v = Inl e \<Longrightarrow> row_error e"
  "field_Int64 v = Inl e \<Longrightarrow> row_error e"
  "field_Float64 v = Inl e \<Longrightarrow> row_error e"
  "field_String v = Inl e \<Longrightarrow> row_error e"
  by (auto simp: field_UInt64_def field_Int64_def field_Float64_def field_String_def
      row_error_def split: Field.splits)

lemma std_copy_Inl: "std_copy b n = Inl e \<Longrightarrow> row_error e"
  by (auto simp: std_copy_def row_error_def split: if_splits)

lemma setAttributeValue_Inl:
  assumes "setAttributeValue env a idx v = Inl e" shows "row_error e"
proof (cases "type a")
  case string
  with assms show ?thesis
    by (auto simp: setAttributeValue_def bindE_eq_Inl Let_def
        dest: store_Inl load_Inl field_Inl std_copy_Inl split: if_splits)
qed (use assms in \<open>auto simp: setAttributeValue_def bindE_eq_Inl dest: store_Inl field_Inl\<close>)

lemma setAttributeValue_type:
  assumes "setAttributeValue env a idx v = Inr a'"
  shows "type a' = type a \<and> null_values a' = null_values a"
  using assms
  by (cases "type a") (auto simp: setAttributeValue_def bindE_eq_Inr Let_def split: if_splits)

lemma set_row_props:
  assumes "set_row env block i cell_idx n as = (as', r)"
  shows "length as' = length as \<and> map type as' = map type as
         \<and> map null_values as' = map null_values as \<and> (\<forall>e. r = Some e \<longrightarrow> row_error e)"
  using assms
proof (induction as arbitrary: n as' r)
  case Nil
  then show ?case by simp
next
  case (Cons a as)
  show ?case
  proof (cases "bindE (getByPosition block (n + 1))
                  (\<lambda>c. bindE (column_at c i) (setAttributeValue env a cell_idx))")
    case (Inl e)
    then have "row_error e"
      by (auto simp: bindE_eq_Inl getByPosition_def column_at_def row_error_def
          dest: setAttributeValue_Inl [unfolded row_error_def] split: if_splits IColumn.splits)
    with Cons.prems Inl show ?thesis by auto
  next
    case (Inr a')
    then have t: "type a' = type a \<and> null_values a' = null_values a"
      by (auto simp: bindE_eq_Inr dest: setAttributeValue_type)
    obtain rest' r' where rr: "set_row env block i cell_idx (Suc n) as = (rest', r')"
      by (cases "set_row env block i cell_idx (Suc n) as")
    from Cons.IH [OF rr] Cons.prems Inr rr t show ?thesis by auto
  qed
qed

subsection \<open>The small instance\<close>

lemmas eval_simps = env0_def cache0_def cache1_def clock0_def clock0u_def bad_block_def schema0_def empty_ref_def empty_cell_def row_block_def
  getCellIdx_def hasTimeExpired_def seconds_def ticks_per_second_def
  std_copy_def c_str_def setAttributeValue_def update_row_def update_def
  assign_def cell_at_def load_def store_def push_back_at_def positions_def
  on_cell_updated_scalar_def getItems_def getAttributeIndex_def MULTIPLE_GETTER_def
  read_bytes_def insertData_def to_String_def increment_def on_cell_updated_string_def
  pessimistic_def getItems_String_def getString_def
  field_UInt64_def field_Int64_def field_Float64_def field_String_def
  typeid_cast_UInt64_def column_at_def getByPosition_def
  ptr_UInt32_def ptr_StringRef_def get_UInt32_def get_String_def Let_def

lemma replicate_4: "replicate 4 x = [x, x, x, x]"
  by (simp add: eval_nat_numeral)

lemma round_up_to_power_of_two_4: "round_up_to_power_of_two 4 = 4"
  by (simp add: round_up_to_power_of_two_def)

lemma construct_d0:
  "construct (env0 stream) schema0 \<lparr>min_sec = 10, max_sec = 20\<rparr> 4 0 = Inr cache0"
  by (simp add: construct_def round_up_to_power_of_two_4 replicate_4 env0_def cache0_def
      schema0_def empty_ref_def empty_cell_def createAttributeWithType_def emplace_def)

lemma getUInt32_d0_d1:
  "getUInt32 (env0 [row_block 1 7 [97]]) (\<lambda>i. 100) (\<lambda>b i. 100) cache0 ''x'' [1] [0]
     = (cache1, Inr [7])"
  by (simp add: eval_simps getUInt32_def)

subsection \<open>Installing a string\<close>

text \<open>
  C6 (amended). When a refresh installs a non-empty string of length \<open>size\<close> into a
  string slot, the slot's new buffer holds \<open>size + 1\<close> bytes, copied from the source
  string's buffer: its \<open>size\<close> bytes followed by the byte at \<^verbatim>\<open>data()[size]\<close>. The
  installed \<^verbatim>\<open>StringRef\<close> has length \<open>size\<close> and its first \<open>size\<close> bytes are the
  source string's bytes.
\<close>

theorem setAttributeValue_string_copies_terminator:
  assumes "type attribute = string"
    and "ptr_StringRef (arrays attribute) = Some arr"
    and "idx < length arr"
    and "s \<noteq> []"
  shows "\<exists>attribute' arr' buf.
           setAttributeValue env attribute idx (Field_String s) = Inr attribute' \<and>
           ptr_StringRef (arrays attribute') = Some arr' \<and>
           arr' ! idx = \<lparr>ref_data = Some buf, ref_size = length s\<rparr> \<and>
           length buf = length s + 1 \<and>
           take (length s) buf = s \<and>
           buf ! length s = c_str s ! length s"
  using assms
  by (simp add: setAttributeValue_def field_String_def load_def store_def std_copy_def
      c_str_def ptr_StringRef_def Let_def)

theorem setAttributeValue_string_copies_terminator_witness:
  "type (attributes cache0 ! 1) = string \<and>
   ptr_StringRef (arrays (attributes cache0 ! 1)) = Some [empty_ref, empty_ref, empty_ref, empty_ref] \<and>
   (1::nat) < length [empty_ref, empty_ref, empty_ref, empty_ref] \<and> [97::byte] \<noteq> [] \<and>
   (\<exists>attribute' arr' buf.
      setAttributeValue (env0 []) (attributes cache0 ! 1) 1 (Field_String [97]) = Inr attribute' \<and>
      ptr_StringRef (arrays attribute') = Some arr' \<and>
      arr' ! 1 = \<lparr>ref_data = Some buf, ref_size = length [97::byte]\<rparr> \<and>
      length buf = length [97::byte] + 1 \<and>
      take (length [97::byte]) buf = [97] \<and>
      buf ! length [97::byte] = c_str [97] ! length [97::byte])"
proof -
  have h1: "type (attributes cache0 ! 1) = string" by (simp add: cache0_def)
  have h2: "ptr_StringRef (arrays (attributes cache0 ! 1))
              = Some [empty_ref, empty_ref, empty_ref, empty_ref]"
    by (simp add: cache0_def ptr_StringRef_def)
  have h3: "(1::nat) < length [empty_ref, empty_ref, empty_ref, empty_ref]" by simp
  have h4: "[97::byte] \<noteq> []" by simp
  from setAttributeValue_string_copies_terminator [OF h1 h2 h3 h4, of "env0 []"] h1 h2 h3 h4
  show ?thesis by blast
qed

text \<open>
  C6 as stated fails: installing the two bytes \<open>[97, 98]\<close> leaves a buffer of three
  bytes in the slot. The third is the byte read at \<^verbatim>\<open>data()[size]\<close>.
\<close>

theorem setAttributeValue_string_three_bytes:
  "setAttributeValue (env0 []) (attributes cache0 ! 1) 1 (Field_String [97, 98])
     = Inr \<lparr>type = string, null_values = Null_String [110],
            arrays = Arr_StringRef
              [empty_ref, \<lparr>ref_data = Some [97, 98, 0], ref_size = 2\<rparr>, empty_ref, empty_ref]\<rparr>
   \<and> std_copy (c_str [97, 98]) (length [97, 98 :: byte] + 1) = Inr [97, 98, c_str [97, 98] ! 2]"
  by (simp add: setAttributeValue_def field_String_def load_def store_def std_copy_def
      c_str_def ptr_StringRef_def cache0_def)

subsection \<open>Expiry of a refreshed cell\<close>

lemma sint_seconds:
  assumes "uint r * ticks_per_second < 2 ^ 63"
  shows "sint (seconds r) = uint r * ticks_per_second"
proof -
  have r0: "0 \<le> uint r" by simp
  have "uint r \<le> uint r * 1000000000" using r0 by simp
  with assms have r63: "uint r < 2 ^ 63" by (simp add: ticks_per_second_def)
  have "sint r = signed_take_bit 63 (uint r)" by (simp add: sint_uint)
  also have "\<dots> = uint r" using r0 r63 by (intro signed_take_bit_int_eq_self) linarith+
  finally have sr: "sint r = uint r" .
  have "sint (r * 1000000000) = signed_take_bit 63 (sint r * sint (1000000000 :: 64 word))"
    by (simp add: sint_word_mult)
  also have "\<dots> = signed_take_bit 63 (uint r * 1000000000)" by (simp add: sr)
  also have "\<dots> = uint r * 1000000000"
    using assms r0 unfolding ticks_per_second_def by (intro signed_take_bit_int_eq_self) linarith+
  finally show ?thesis by (simp add: seconds_def ticks_per_second_def)
qed

lemma sint_expiry:
  assumes "uint r * ticks_per_second < 2 ^ 63"
    and "sint (t :: 64 word) + uint r * ticks_per_second < 2 ^ 63"
  shows "sint (t + seconds r) = sint t + uint r * ticks_per_second"
proof -
  have lo: "- (2 ^ 63) \<le> sint t" using sint_ge [of t] by simp
  have p0: "0 \<le> uint r * ticks_per_second" by (simp add: ticks_per_second_def)
  have "sint (t + seconds r) = signed_take_bit 63 (sint t + sint (seconds r))"
    by (simp add: sint_word_add)
  also have "\<dots> = signed_take_bit 63 (sint t + uint r * ticks_per_second)"
    by (simp add: sint_seconds [OF assms(1)])
  also have "\<dots> = sint t + uint r * ticks_per_second"
    using lo p0 assms(2) by (intro signed_take_bit_int_eq_self) linarith+
  finally show ?thesis .
qed

lemma update_row_Inr:
  assumes "update_row env t block i k d = (d', Inr cell_idx)"
  shows "cell_idx = unat (getCellIdx env d k) \<and> cell_idx < length (cells d) \<and>
         dict_lifetime d' = dict_lifetime d \<and> size_cd d' = size_cd d \<and>
         attribute_index_by_name d' = attribute_index_by_name d \<and>
         attributes d' = fst (set_row env block i cell_idx 0 (attributes d)) \<and>
         snd (set_row env block i cell_idx 0 (attributes d)) = None \<and>
         cells d' = (cells d)[cell_idx := \<lparr>cell_id = k, expires_at = t + seconds
           (fst (uniform_int_distribution env (min_sec (dict_lifetime d))
                   (max_sec (dict_lifetime d)) (rnd_engine d)))\<rparr>]"
  using assms
  by (auto simp: update_row_def Let_def split: if_splits prod.splits option.splits)

text \<open>
  C2 (amended). A row of a refresh processed at instant \<open>t\<close> writes the slot of its key.
  When \<open>max_sec\<close> seconds, in nanoseconds, and \<open>t\<close> plus that duration both fit the
  clock's 64-bit signed nanosecond count, the installed \<open>expires_at\<close> lies in
  \<open>[t + min_sec, t + max_sec]\<close>, for the lifetime settings of the cache, which the row
  leaves as they are. The draw is the one \<^verbatim>\<open>std::uniform_int_distribution\<close> returns, under
  its contract. Time points are read as signed counts, durations in nanoseconds.
\<close>

theorem update_row_expires_at:
  assumes "uniform_int_contract env"
    and "min_sec (dict_lifetime d) \<le> max_sec (dict_lifetime d)"
    and "uint (max_sec (dict_lifetime d)) * ticks_per_second < 2 ^ 63"
    and "sint t + uint (max_sec (dict_lifetime d)) * ticks_per_second < 2 ^ 63"
    and "update_row env t block i k d = (d', Inr cell_idx)"
  shows "cell_idx = unat (getCellIdx env d k) \<and> cell_idx < length (cells d') \<and>
         cell_id (cells d' ! cell_idx) = k \<and>
         sint t + uint (min_sec (dict_lifetime d)) * ticks_per_second
           \<le> sint (expires_at (cells d' ! cell_idx)) \<and>
         sint (expires_at (cells d' ! cell_idx))
           \<le> sint t + uint (max_sec (dict_lifetime d)) * ticks_per_second \<and>
         dict_lifetime d' = dict_lifetime d"
proof -
  let ?r = "fst (uniform_int_distribution env (min_sec (dict_lifetime d))
                   (max_sec (dict_lifetime d)) (rnd_engine d))"
  from assms(1,2) have "min_sec (dict_lifetime d) \<le> ?r" "?r \<le> max_sec (dict_lifetime d)"
    by (simp_all add: uniform_int_contract_def)
  then have r: "uint (min_sec (dict_lifetime d)) \<le> uint ?r"
    "uint ?r \<le> uint (max_sec (dict_lifetime d))"
    by (simp_all add: word_le_def)
  then have m: "uint (min_sec (dict_lifetime d)) * ticks_per_second \<le> uint ?r * ticks_per_second"
    "uint ?r * ticks_per_second \<le> uint (max_sec (dict_lifetime d)) * ticks_per_second"
    by (simp_all add: ticks_per_second_def)
  from m(2) assms(3,4) have "uint ?r * ticks_per_second < 2 ^ 63"
    "sint t + uint ?r * ticks_per_second < 2 ^ 63" by linarith+
  then have e: "sint (t + seconds ?r) = sint t + uint ?r * ticks_per_second"
    by (rule sint_expiry)
  from update_row_Inr [OF assms(5)] have
    c: "cell_idx = unat (getCellIdx env d k)" "cell_idx < length (cells d)"
      "dict_lifetime d' = dict_lifetime d"
      "cells d' = (cells d)[cell_idx := \<lparr>cell_id = k, expires_at = t + seconds ?r\<rparr>]"
    by simp_all
  from c(2,4) have cell: "cells d' ! cell_idx = \<lparr>cell_id = k, expires_at = t + seconds ?r\<rparr>"
    "cell_idx < length (cells d')" by simp_all
  from c(1,3) cell e m show ?thesis by simp
qed

theorem update_row_expires_at_witness:
  "uniform_int_contract (env0 []) \<and>
   min_sec (dict_lifetime cache0) \<le> max_sec (dict_lifetime cache0) \<and>
   uint (max_sec (dict_lifetime cache0)) * ticks_per_second < 2 ^ 63 \<and>
   sint (100 :: 64 word) + uint (max_sec (dict_lifetime cache0)) * ticks_per_second < 2 ^ 63 \<and>
   update_row (env0 []) 100 (row_block 1 7 [97]) 0 1 cache0 = (cache1, Inr 1) \<and>
   1 = unat (getCellIdx (env0 []) cache0 1) \<and> 1 < length (cells cache1) \<and>
   cell_id (cells cache1 ! 1) = 1 \<and>
   sint (100 :: 64 word) + uint (min_sec (dict_lifetime cache0)) * ticks_per_second
     \<le> sint (expires_at (cells cache1 ! 1)) \<and>
   sint (expires_at (cells cache1 ! 1))
     \<le> sint (100 :: 64 word) + uint (max_sec (dict_lifetime cache0)) * ticks_per_second \<and>
   dict_lifetime cache1 = dict_lifetime cache0"
proof -
  have h1: "uniform_int_contract (env0 [])"
    by (simp add: uniform_int_contract_def env0_def)
  have h2: "min_sec (dict_lifetime cache0) \<le> max_sec (dict_lifetime cache0)"
    by (simp add: cache0_def)
  have h3: "uint (max_sec (dict_lifetime cache0)) * ticks_per_second < 2 ^ 63"
    by (simp add: cache0_def ticks_per_second_def)
  have h4: "sint (100 :: 64 word) + uint (max_sec (dict_lifetime cache0)) * ticks_per_second < 2 ^ 63"
    by (simp add: cache0_def ticks_per_second_def)
  have h5: "update_row (env0 []) 100 (row_block 1 7 [97]) 0 1 cache0 = (cache1, Inr 1)"
    by (simp add: eval_simps)
  from update_row_expires_at [OF h1 h2 h3 h4 h5] h1 h2 h3 h4 h5 show ?thesis by blast
qed

text \<open>
  C2 as stated fails for a lifetime whose nanosecond count does not fit 64 signed bits. With
  \<open>min_sec = max_sec = 10^10\<close> the draw is \<open>10^10\<close>, and the row processed at instant
  100 installs the time point \<open>100 + 10^19\<close> wrapped to 64 bits, the signed count
  \<open>-8446744073709551516\<close>: it lies before \<open>t + min_sec\<close>, and before \<open>t\<close> itself.
\<close>

theorem update_row_expires_at_overflow:
  "uniform_int_contract (env0 []) \<and>
   min_sec (dict_lifetime cache_long) \<le> max_sec (dict_lifetime cache_long) \<and>
   snd (update_row (env0 []) 100 (row_block 1 7 [97]) 0 1 cache_long) = Inr 1 \<and>
   sint (expires_at (cells (fst (update_row (env0 []) 100 (row_block 1 7 [97]) 0 1 cache_long)) ! 1))
     = - 8446744073709551516 \<and>
   \<not> sint (100 :: 64 word) + uint (min_sec (dict_lifetime cache_long)) * ticks_per_second
       \<le> sint (expires_at
           (cells (fst (update_row (env0 []) 100 (row_block 1 7 [97]) 0 1 cache_long)) ! 1))"
  by (simp add: eval_simps cache_long_def uniform_int_contract_def)

subsection \<open>Exceptions of a refresh and of a lookup\<close>

lemma update_row_Inl:
  assumes "update_row env t block i k d = (d', Inl e)" shows "row_error e"
proof (cases "unat (getCellIdx env d k) < length (cells d)")
  case False
  with assms show ?thesis by (auto simp: update_row_def Let_def row_error_def)
next
  case True
  obtain as r where sr: "set_row env block i (unat (getCellIdx env d k)) 0 (attributes d) = (as, r)"
    by (cases "set_row env block i (unat (getCellIdx env d k)) 0 (attributes d)")
  from set_row_props [OF sr] assms True sr show ?thesis
    by (auto simp: update_row_def Let_def split: option.splits prod.splits)
qed

lemma update_block_Inl:
  assumes f: "\<And>k c d acc e. f k c d acc = Inl e \<Longrightarrow> P e"
    and r: "\<And>e. row_error e \<Longrightarrow> P e"
    and u: "update_block env now f block i ks d acc = (d', Inl e)"
  shows "P e"
  using u
proof (induction ks arbitrary: i d acc)
  case Nil
  then show ?case by simp
next
  case (Cons k ks)
  obtain dd r1 where ur: "update_row env (now i) block i k d = (dd, r1)"
    by (cases "update_row env (now i) block i k d")
  show ?case
  proof (cases r1)
    case (Inl e1)
    with Cons.prems ur have "e = e1" by simp
    with update_row_Inl [of env "now i" block i k d dd e1] ur Inl r show ?thesis by simp
  next
    case (Inr c)
    show ?thesis
    proof (cases "f k c dd acc")
      case (Inl e1)
      with Cons.prems ur Inr have "e = e1" by simp
      with f [OF Inl] show ?thesis by simp
    next
      case (Inr acc1)
      with Cons.prems ur \<open>r1 = Inr c\<close>
      have "update_block env now f block (Suc i) ks dd acc1 = (d', Inl e)" by simp
      then show ?thesis by (rule Cons.IH)
    qed
  qed
qed

lemma update_stream_Inl:
  assumes f: "\<And>k c d acc e. f k c d acc = Inl e \<Longrightarrow> P e"
    and r: "\<And>e. row_error e \<Longrightarrow> P e"
    and u: "update_stream env now f b blocks d acc = (d', Inl e)"
  shows "P e \<or> (e = TYPE_MISMATCH \<and>
           (\<exists>block \<in> set blocks. block \<noteq> [] \<and> typeid_cast_UInt64 (block ! 0) = None))"
  using u
proof (induction blocks arbitrary: b d acc)
  case Nil
  then show ?case by simp
next
  case (Cons block blocks)
  show ?case
  proof (cases "block = []")
    case True
    with Cons.prems show ?thesis by simp
  next
    case ne: False
    show ?thesis
    proof (cases "typeid_cast_UInt64 (block ! 0)")
      case None
      with Cons.prems ne show ?thesis by auto
    next
      case (Some ids)
      obtain dd r1 where ub: "update_block env (now b) f block 0 ids d acc = (dd, r1)"
        by (cases "update_block env (now b) f block 0 ids d acc")
      show ?thesis
      proof (cases r1)
        case (Inl e1)
        with Cons.prems ne Some ub have "e = e1" by simp
        with update_block_Inl [of f P env "now b" block 0 ids d acc dd e1] f r ub Inl
        show ?thesis by blast
      next
        case (Inr acc1)
        with Cons.prems ne Some ub
        have "update_stream env now f (Suc b) blocks dd acc1 = (d', Inl e)" by simp
        from Cons.IH [OF this] show ?thesis by auto
      qed
    qed
  qed
qed

lemma assign_Inl: "assign out i v = Inl e \<longleftrightarrow> \<not> i < length out \<and> e = UNDEFINED_BEHAVIOUR OutIndex"
  by (auto simp: assign_def)

lemma assign_Inr: "assign out i v = Inr out' \<longleftrightarrow> i < length out \<and> out' = out[i := v]"
  by (auto simp: assign_def)

lemma cell_at_Inl: "cell_at cs i = Inl e \<longleftrightarrow> \<not> i < length cs \<and> e = UNDEFINED_BEHAVIOUR CellIndex"
  by (auto simp: cell_at_def)

lemma cell_at_Inr: "cell_at cs i = Inr c \<longleftrightarrow> i < length cs \<and> c = cs ! i"
  by (auto simp: cell_at_def)

lemma load_Inl_ub: "load p idx = Inl e \<Longrightarrow> is_ub e"
  by (auto simp: load_def is_ub_def split: option.splits if_splits)

lemma fetch_Inl:
  "fetch env now d null arr i ks out od = Inl e \<Longrightarrow> is_ub e"
proof (induction ks arbitrary: i out od)
  case Nil
  then show ?case by simp
next
  case (Cons k ks)
  have ub: "\<And>u. is_ub (UNDEFINED_BEHAVIOUR u)" by (simp add: is_ub_def)
  show ?case
  proof (cases "k = 0")
    case True
    with Cons.prems show ?thesis
      by (auto simp: bindE_eq_Inl assign_Inl ub dest: Cons.IH)
  next
    case False
    show ?thesis
    proof (cases "cell_at (cells d) (unat (getCellIdx env d k))")
      case (Inl e1)
      with Cons.prems False show ?thesis by (auto simp: cell_at_Inl ub)
    next
      case (Inr cell)
      show ?thesis
      proof (cases "cell_id cell \<noteq> k \<or> hasTimeExpired (now i) (expires_at cell)")
        case True
        with Cons.prems False Inr show ?thesis
          by (auto simp: bindE_eq_Inl assign_Inl ub dest: Cons.IH)
      next
        case hit: False
        with Cons.prems False Inr show ?thesis
          by (auto simp: bindE_eq_Inl assign_Inl ub dest: Cons.IH load_Inl_ub)
      qed
    qed
  qed
qed

lemma set_missing_Inl: "set_missing js v out = Inl e \<Longrightarrow> e = UNDEFINED_BEHAVIOUR OutIndex"
  by (induction js arbitrary: out) (auto simp: bindE_eq_Inl assign_Inl)

lemma on_cell_updated_scalar_Inl:
  "on_cell_updated_scalar ptr a od k c d out = Inl e \<Longrightarrow> is_ub e"
  by (auto simp: on_cell_updated_scalar_def bindE_eq_Inl is_ub_def [of "UNDEFINED_BEHAVIOUR _"]
      dest: load_Inl_ub set_missing_Inl)

lemma getItems_cases:
  assumes "getItems env now_r now_u get ptr d idx ids out = (d', r)"
  obtains (bad_idx) "\<not> idx < length (attributes d)" "d' = d" "r = Inl (UNDEFINED_BEHAVIOUR AttributeIndex)"
  | (fetch_failed) e where "idx < length (attributes d)"
      "fetch env now_r d (get (null_values (attributes d ! idx)))
         (ptr (arrays (attributes d ! idx))) 0 ids out [] = Inl e" "d' = d" "r = Inl e"
  | (all_hit) out1 where "idx < length (attributes d)"
      "fetch env now_r d (get (null_values (attributes d ! idx)))
         (ptr (arrays (attributes d ! idx))) 0 ids out [] = Inr (out1, [])" "d' = d" "r = Inr out1"
  | (refresh) out1 od where "idx < length (attributes d)"
      "fetch env now_r d (get (null_values (attributes d ! idx)))
         (ptr (arrays (attributes d ! idx))) 0 ids out [] = Inr (out1, od)" "od \<noteq> []"
      "update env now_u d (map fst od) (on_cell_updated_scalar ptr idx od) out1 = (d', r)"
proof (cases "idx < length (attributes d)")
  case False
  with assms have "d' = d" "r = Inl (UNDEFINED_BEHAVIOUR AttributeIndex)"
    by (simp_all add: getItems_def)
  with False show ?thesis by (rule bad_idx)
next
  case True
  let ?f = "fetch env now_r d (get (null_values (attributes d ! idx)))
         (ptr (arrays (attributes d ! idx))) 0 ids out []"
  have g: "getItems env now_r now_u get ptr d idx ids out =
     (case ?f of Inl e \<Rightarrow> (d, Inl e)
       | Inr (out', od) \<Rightarrow> if od = [] then (d, Inr out')
           else update env now_u d (map fst od) (on_cell_updated_scalar ptr idx od) out')"
    using True by (simp add: getItems_def Let_def)
  show ?thesis
  proof (cases ?f)
    case (Inl e)
    with assms have "d' = d" "r = Inl e" unfolding g by simp_all
    with True Inl show ?thesis by (rule fetch_failed)
  next
    case (Inr p)
    obtain out1 od where p: "p = (out1, od)" by (cases p)
    show ?thesis
    proof (cases "od = []")
      case True
      with assms Inr p have "d' = d" "r = Inr out1" unfolding g by simp_all
      with \<open>idx < length (attributes d)\<close> Inr [unfolded p True] show ?thesis by (rule all_hit)
    next
      case False
      with assms Inr p
      have "update env now_u d (map fst od) (on_cell_updated_scalar ptr idx od) out1 = (d', r)"
        unfolding g by simp
      with \<open>idx < length (attributes d)\<close> Inr [unfolded p] False show ?thesis by (rule refresh)
    qed
  qed
qed

lemma is_ub_not_TYPE_MISMATCH: "is_ub e \<Longrightarrow> e \<noteq> TYPE_MISMATCH"
  by (auto simp: is_ub_def)

lemma row_error_not_TYPE_MISMATCH: "row_error e \<Longrightarrow> e \<noteq> TYPE_MISMATCH"
  by (auto simp: row_error_def)

lemma getItems_TYPE_MISMATCH:
  assumes "getItems env now_r now_u get ptr d idx ids out = (d', Inl TYPE_MISMATCH)"
  shows "\<exists>req. \<exists>block \<in> set (loadIds env req). block \<noteq> [] \<and> typeid_cast_UInt64 (block ! 0) = None"
  using assms
proof (cases rule: getItems_cases)
  case bad_idx
  then show ?thesis by simp
next
  case (fetch_failed e)
  from fetch_failed(2) have "is_ub e" by (rule fetch_Inl)
  then have "e \<noteq> TYPE_MISMATCH" by (rule is_ub_not_TYPE_MISMATCH)
  with fetch_failed(4) show ?thesis by simp
next
  case (all_hit out1)
  then show ?thesis by simp
next
  case (refresh out1 od)
  have f: "\<And>k c d acc e. on_cell_updated_scalar ptr idx od k c d acc = Inl e \<Longrightarrow> e \<noteq> TYPE_MISMATCH"
    by (rule is_ub_not_TYPE_MISMATCH, erule on_cell_updated_scalar_Inl)
  from refresh(4) have u: "update_stream env now_u (on_cell_updated_scalar ptr idx od) 0
       (loadIds env (map fst od)) d out1 = (d', Inl TYPE_MISMATCH)"
    by (simp add: update_def)
  have "TYPE_MISMATCH \<noteq> TYPE_MISMATCH \<or> (TYPE_MISMATCH = TYPE_MISMATCH \<and>
           (\<exists>block \<in> set (loadIds env (map fst od)). block \<noteq> [] \<and> typeid_cast_UInt64 (block ! 0) = None))"
    by (rule update_stream_Inl [where P = "\<lambda>e. e \<noteq> TYPE_MISMATCH", OF f row_error_not_TYPE_MISMATCH u])
  then show ?thesis by blast
qed

subsection \<open>The type check of the getters\<close>

text \<open>
  C4 (amended). For an attribute present in the schema and a getter of kind \<open>T\<close>: when the
  declared kind differs from \<open>T\<close> the getter fails with \<open>TYPE_MISMATCH\<close>, the cache state
  is returned as it was and nothing of the environment is consulted; when the kinds are equal
  the getter is the lookup \<open>getItems\<close>, and the only \<open>TYPE_MISMATCH\<close> it can still raise
  comes from the refresh, for a block of the source whose first column is not a
  \<^verbatim>\<open>ColumnVector<UInt64>\<close>.
\<close>

theorem MULTIPLE_GETTER_type_check:
  assumes "getAttributeIndex d attribute_name = Inr idx"
    and "idx < length (attributes d)"
  shows "(type (attributes d ! idx) \<noteq> lc_type \<longrightarrow>
            MULTIPLE_GETTER lc_type get ptr env now_r now_u d attribute_name ids out
              = (d, Inl TYPE_MISMATCH)) \<and>
         (type (attributes d ! idx) = lc_type \<longrightarrow>
            MULTIPLE_GETTER lc_type get ptr env now_r now_u d attribute_name ids out
              = getItems env now_r now_u get ptr d idx ids out \<and>
            (snd (getItems env now_r now_u get ptr d idx ids out) = Inl TYPE_MISMATCH \<longrightarrow>
               (\<exists>req. \<exists>block \<in> set (loadIds env req).
                   block \<noteq> [] \<and> typeid_cast_UInt64 (block ! 0) = None)))"
proof -
  have "snd (getItems env now_r now_u get ptr d idx ids out) = Inl TYPE_MISMATCH \<Longrightarrow>
        \<exists>req. \<exists>block \<in> set (loadIds env req). block \<noteq> [] \<and> typeid_cast_UInt64 (block ! 0) = None"
    using getItems_TYPE_MISMATCH [of env now_r now_u get ptr d idx ids out]
    by (cases "getItems env now_r now_u get ptr d idx ids out") simp
  then show ?thesis using assms by (auto simp: MULTIPLE_GETTER_def)
qed

theorem MULTIPLE_GETTER_type_check_witness:
  "getAttributeIndex cache0 ''x'' = Inr 0 \<and> 0 < length (attributes cache0) \<and>
   type (attributes cache0 ! 0) \<noteq> uint64 \<and>
   getUInt64 (env0 []) clock0 clock0u cache0 ''x'' [1] [0] = (cache0, Inl TYPE_MISMATCH) \<and>
   type (attributes cache0 ! 0) = uint32 \<and>
   getUInt32 (env0 [bad_block]) clock0 clock0u cache0 ''x'' [1] [0]
     = getItems (env0 [bad_block]) clock0 clock0u get_UInt32 ptr_UInt32 cache0 0 [1] [0] \<and>
   snd (getItems (env0 [bad_block]) clock0 clock0u get_UInt32 ptr_UInt32 cache0 0 [1] [0])
     = Inl TYPE_MISMATCH \<and>
   (\<exists>req. \<exists>block \<in> set (loadIds (env0 [bad_block]) req).
       block \<noteq> [] \<and> typeid_cast_UInt64 (block ! 0) = None)"
proof -
  have h1: "getAttributeIndex cache0 ''x'' = Inr 0" by (simp add: getAttributeIndex_def cache0_def)
  have h2: "0 < length (attributes cache0)" by (simp add: cache0_def)
  have h3: "type (attributes cache0 ! 0) \<noteq> uint64" by (simp add: cache0_def)
  have h4: "type (attributes cache0 ! 0) = uint32" by (simp add: cache0_def)
  have h5: "snd (getItems (env0 [bad_block]) clock0 clock0u get_UInt32 ptr_UInt32 cache0 0 [1] [0])
     = Inl TYPE_MISMATCH"
    by (simp add: eval_simps)
  from MULTIPLE_GETTER_type_check [OF h1 h2, of uint64 get_UInt64 ptr_UInt64 "env0 []" clock0 clock0u "[1]" "[0]"]
    MULTIPLE_GETTER_type_check [OF h1 h2, of uint32 get_UInt32 ptr_UInt32 "env0 [bad_block]" clock0 clock0u "[1]" "[0]"]
    h1 h2 h3 h4 h5
  show ?thesis unfolding getUInt64_def getUInt32_def by blast
qed

text \<open>
  C4 as stated fails in the direction "kinds equal, hence no type error": \<open>x\<close> is
  declared \<open>uint32\<close>, key 1 is not resident, and the source answers with a block whose
  key column is not a \<^verbatim>\<open>ColumnVector<UInt64>\<close>; \<open>getUInt32\<close> ends with
  \<open>TYPE_MISMATCH\<close>.
\<close>

theorem getUInt32_TYPE_MISMATCH_from_source:
  "getAttributeIndex cache0 ''x'' = Inr 0 \<and> type (attributes cache0 ! 0) = uint32 \<and>
   getUInt32 (env0 [bad_block]) clock0 clock0u cache0 ''x'' [1] [0] = (cache0, Inl TYPE_MISMATCH)"
  by (simp add: eval_simps getUInt32_def)

subsection \<open>Key 0 in the string getter\<close>

text \<open>
  C5 at a failing input. Keys \<open>[0, 1]\<close> are requested from the empty cache, so the
  optimistic pass stops at key 1. The source answers with a block that also has a row for
  key 0; the callback stores that row's string under key 0 in \<open>map\<close>, and the last loop
  emits it for the position of key 0: the row is \<open>''z''\<close> where the null value of
  \<open>s\<close> is \<open>''n''\<close>. The scalar getter on the same input writes the null value.
\<close>

theorem getString_key_zero_from_source:
  "snd (getString (env0 [zero_block]) clock0 clock0 clock0u cache0 ''s'' [0, 1] empty_column)
     = Inr \<lparr>chars = [122, 0, 97, 0], offsets = [2, 4]\<rparr> \<and>
   rows \<lparr>chars = [122, 0, 97, 0], offsets = [2, 4]\<rparr> = [[122], [97]] \<and>
   get_String (null_values (attributes cache0 ! 1)) = [110] \<and>
   snd (getUInt32 (env0 [zero_block]) clock0 clock0u cache0 ''x'' [0, 1] [3, 3]) = Inr [0, 7]"
  by (simp add: eval_simps zero_block_def empty_column_def rows_def getUInt32_def)

subsection \<open>The read pass of a scalar lookup\<close>

lemma map_of_map_upd:
  "map_of (map (\<lambda>(k', l). if k' = k then (k', g l) else (k', l)) m) k' =
     (if k' = k then map_option g (map_of m k) else map_of m k')"
  by (induction m) auto

lemma positions_push_back_at:
  "positions (push_back_at k i m) k' = (if k' = k then positions m k @ [i] else positions m k')"
  by (cases "map_of m k")
     (auto simp: positions_def push_back_at_def map_of_map_upd map_add_def split: option.splits)

lemma fst_map_upd:
  "map (fst \<circ> (\<lambda>(k', l). if k' = k then (k', g l) else (k', l))) m = map fst m"
  by (induction m) auto

lemma map_fst_push_back_at:
  "map fst (push_back_at k i m) = (if map_of m k = None then map fst m @ [k] else map fst m)"
  by (cases "map_of m k") (simp_all add: push_back_at_def fst_map_upd)

lemma keys_push_back_at:
  "set (map fst (push_back_at k i m)) = insert k (set (map fst m))"
proof (cases "map_of m k")
  case None
  then show ?thesis by (simp add: map_fst_push_back_at)
next
  case (Some l)
  then have "k \<in> set (map fst m)" by (metis map_of_eq_None_iff option.distinct(1) set_map)
  with Some show ?thesis by (auto simp: map_fst_push_back_at simp del: set_map)
qed

lemma distinct_push_back_at:
  "distinct (map fst m) \<Longrightarrow> distinct (map fst (push_back_at k i m))"
  by (auto simp: map_fst_push_back_at map_of_eq_None_iff)

lemma push_back_at_not_Nil: "push_back_at k i m \<noteq> []"
  by (cases "map_of m k") (auto simp: push_back_at_def)

lemma positions_Nil [simp]: "positions [] k = []"
  by (simp add: positions_def)


lemma fetch_step:
  assumes "fetch env now d null arr i (k # ks) out od = Inr (out', od')"
    and "ids = pre @ k # ks" and "length pre = i"
  obtains v where "i < length out"
    "fetch env now d null arr (Suc i) ks (out[i := v])
       (if miss env now d ids i then push_back_at k i od else od) = Inr (out', od')"
    "ids ! i = 0 \<or> miss env now d ids i \<Longrightarrow> v = null"
    "\<not> (ids ! i = 0 \<or> miss env now d ids i) \<Longrightarrow>
        load arr (unat (getCellIdx env d (ids ! i))) = Inr v"
    "ids ! i \<noteq> 0 \<Longrightarrow> unat (getCellIdx env d (ids ! i)) < length (cells d)"
proof -
  from assms(2,3) have k: "ids ! i = k" by auto
  show ?thesis
  proof (cases "k = 0")
    case True
    with assms(1) have "i < length out"
      "fetch env now d null arr (Suc i) ks (out[i := null]) od = Inr (out', od')"
      by (auto simp: bindE_eq_Inr assign_Inr)
    with True k show ?thesis by (intro that [of null]) (simp_all add: miss_def)
  next
    case False
    with assms(1) obtain cell where
      c: "cell_at (cells d) (unat (getCellIdx env d k)) = Inr cell" and
      r: "(if cell_id cell \<noteq> k \<or> hasTimeExpired (now i) (expires_at cell) then
           bindE (assign out i null) (\<lambda>out'.
             fetch env now d null arr (Suc i) ks out' (push_back_at k i od))
         else
           bindE (load arr (unat (getCellIdx env d k))) (\<lambda>v.
             bindE (assign out i v) (\<lambda>out'.
               fetch env now d null arr (Suc i) ks out' od))) = Inr (out', od')"
      by (auto simp: bindE_eq_Inr)
    from c have cb: "unat (getCellIdx env d k) < length (cells d)"
      and ce: "cell = cells d ! unat (getCellIdx env d k)" by (simp_all add: cell_at_Inr)
    have m: "miss env now d ids i \<longleftrightarrow> cell_id cell \<noteq> k \<or> hasTimeExpired (now i) (expires_at cell)"
      using False k ce by (simp add: miss_def outdated_def)
    show ?thesis
    proof (cases "miss env now d ids i")
      case True
      with r m have "i < length out"
        "fetch env now d null arr (Suc i) ks (out[i := null]) (push_back_at k i od) = Inr (out', od')"
        by (auto simp: bindE_eq_Inr assign_Inr)
      with True k cb show ?thesis by (intro that [of null]) simp_all
    next
      case hit: False
      with r m obtain v where "load arr (unat (getCellIdx env d k)) = Inr v" "i < length out"
        "fetch env now d null arr (Suc i) ks (out[i := v]) od = Inr (out', od')"
        by (auto simp: bindE_eq_Inr assign_Inr)
      with hit k cb False show ?thesis by (intro that [of v]) simp_all
    qed
  qed
qed

lemma filter_upt_step:
  "i < n \<Longrightarrow> filter P [i..<n] = (if P i then [i] else []) @ filter P [Suc i..<n]"
  by (simp add: upt_conv_Cons)

lemma fetch_Inr:
  assumes "fetch env now d null arr i ks out od = Inr (out', od')"
    and "ids = pre @ ks" and "length pre = i"
  shows "length out' = length out \<and>
    (ks \<noteq> [] \<longrightarrow> length ids \<le> length out) \<and>
    (\<forall>j. j < i \<or> length ids \<le> j \<longrightarrow> out' ! j = out ! j) \<and>
    (\<forall>j. i \<le> j \<and> j < length ids \<longrightarrow>
       (if ids ! j = 0 \<or> miss env now d ids j then out' ! j = null
        else load arr (unat (getCellIdx env d (ids ! j))) = Inr (out' ! j))) \<and>
    (\<forall>j. i \<le> j \<and> j < length ids \<and> ids ! j \<noteq> 0 \<longrightarrow>
       unat (getCellIdx env d (ids ! j)) < length (cells d)) \<and>
    (\<forall>k. positions od' k =
       positions od k @ filter (\<lambda>j. ids ! j = k \<and> miss env now d ids j) [i..<length ids]) \<and>
    set (map fst od') = set (map fst od) \<union> {ids ! j |j. i \<le> j \<and> j < length ids \<and> miss env now d ids j} \<and>
    (distinct (map fst od) \<longrightarrow> distinct (map fst od'))"
  using assms
proof (induction ks arbitrary: pre i out od)
  case Nil
  then show ?case by auto
next
  case (Cons k ks)
  from Cons.prems(2,3) have k: "ids ! i = k" and iin: "i < length ids" by auto
  from Cons.prems obtain v where
    io: "i < length out" and
    f: "fetch env now d null arr (Suc i) ks (out[i := v])
       (if miss env now d ids i then push_back_at k i od else od) = Inr (out', od')" and
    vn: "ids ! i = 0 \<or> miss env now d ids i \<Longrightarrow> v = null" and
    vl: "\<not> (ids ! i = 0 \<or> miss env now d ids i) \<Longrightarrow>
        load arr (unat (getCellIdx env d (ids ! i))) = Inr v" and
    cb: "ids ! i \<noteq> 0 \<Longrightarrow> unat (getCellIdx env d (ids ! i)) < length (cells d)"
    by (rule fetch_step) (rule that)
  let ?od1 = "if miss env now d ids i then push_back_at k i od else od"
  have p2: "ids = (pre @ [k]) @ ks" "length (pre @ [k]) = Suc i"
    using Cons.prems(2,3) by simp_all
  note IH = Cons.IH [OF f p2]
  have len: "length out' = length out" using IH by simp
  have ks_len: "length ids \<le> length out"
  proof (cases "ks = []")
    case True
    with Cons.prems(2,3) io show ?thesis by simp
  next
    case False
    with IH show ?thesis by simp
  qed
  have oi: "out' ! i = v" using IH io by simp
  have unchanged: "\<forall>j. j < i \<or> length ids \<le> j \<longrightarrow> out' ! j = out ! j"
  proof (intro allI impI)
    fix j assume j: "j < i \<or> length ids \<le> j"
    with iin have "j \<noteq> i" by auto
    moreover from j have "j < Suc i \<or> length ids \<le> j" by auto
    with IH have "out' ! j = (out[i := v]) ! j" by blast
    ultimately show "out' ! j = out ! j" by simp
  qed
  have vals: "\<forall>j. i \<le> j \<and> j < length ids \<longrightarrow>
       (if ids ! j = 0 \<or> miss env now d ids j then out' ! j = null
        else load arr (unat (getCellIdx env d (ids ! j))) = Inr (out' ! j))"
  proof (intro allI impI)
    fix j assume j: "i \<le> j \<and> j < length ids"
    show "if ids ! j = 0 \<or> miss env now d ids j then out' ! j = null
        else load arr (unat (getCellIdx env d (ids ! j))) = Inr (out' ! j)"
    proof (cases "j = i")
      case True
      with oi vn vl show ?thesis by auto
    next
      case False
      with j have "Suc i \<le> j \<and> j < length ids" by auto
      with IH show ?thesis by blast
    qed
  qed
  have cells_ok: "\<forall>j. i \<le> j \<and> j < length ids \<and> ids ! j \<noteq> 0 \<longrightarrow>
       unat (getCellIdx env d (ids ! j)) < length (cells d)"
  proof (intro allI impI)
    fix j assume j: "i \<le> j \<and> j < length ids \<and> ids ! j \<noteq> 0"
    show "unat (getCellIdx env d (ids ! j)) < length (cells d)"
    proof (cases "j = i")
      case True
      with j cb show ?thesis by simp
    next
      case False
      with j have "Suc i \<le> j \<and> j < length ids \<and> ids ! j \<noteq> 0" by auto
      with IH show ?thesis by blast
    qed
  qed
  have pos: "\<forall>k'. positions od' k' =
       positions od k' @ filter (\<lambda>j. ids ! j = k' \<and> miss env now d ids j) [i..<length ids]"
  proof
    fix k'
    from IH have "positions od' k' = positions ?od1 k' @
        filter (\<lambda>j. ids ! j = k' \<and> miss env now d ids j) [Suc i..<length ids]" by blast
    moreover have "positions ?od1 k' =
        positions od k' @ (if ids ! i = k' \<and> miss env now d ids i then [i] else [])"
      using k by (auto simp: positions_push_back_at)
    ultimately show "positions od' k' =
       positions od k' @ filter (\<lambda>j. ids ! j = k' \<and> miss env now d ids j) [i..<length ids]"
      by (simp add: filter_upt_step [OF iin])
  qed
  have keys1: "set (map fst ?od1) = set (map fst od) \<union> (if miss env now d ids i then {k} else {})"
    by (simp add: keys_push_back_at del: set_map)
  have rng: "{ids ! j |j. i \<le> j \<and> j < length ids \<and> miss env now d ids j} =
      (if miss env now d ids i then {k} else {}) \<union>
      {ids ! j |j. Suc i \<le> j \<and> j < length ids \<and> miss env now d ids j}"
    using k iin by (auto simp: Suc_le_eq le_less)
  have keys: "set (map fst od') = set (map fst od) \<union>
      {ids ! j |j. i \<le> j \<and> j < length ids \<and> miss env now d ids j}"
  proof -
    from IH have "set (map fst od') = set (map fst ?od1) \<union>
      {ids ! j |j. Suc i \<le> j \<and> j < length ids \<and> miss env now d ids j}" by blast
    then show ?thesis unfolding keys1 rng by blast
  qed
  have dist: "distinct (map fst od) \<longrightarrow> distinct (map fst od')"
  proof
    assume "distinct (map fst od)"
    then have "distinct (map fst ?od1)" by (simp add: distinct_push_back_at)
    with IH show "distinct (map fst od')" by blast
  qed
  from len ks_len unchanged vals cells_ok pos keys dist show ?case by blast
qed


lemma update_block_sim:
  assumes step: "\<And>k c d a b. R a b \<Longrightarrow> rel_result R (f k c d a) (g k c d b)"
    and "R a b"
    and "update_block env now f block i ks d a = (d', ra)"
  shows "\<exists>rb. update_block env now g block i ks d b = (d', rb) \<and> rel_result R ra rb"
  using assms(2,3)
proof (induction ks arbitrary: i d a b)
  case Nil
  then show ?case by (auto simp: rel_result_def)
next
  case (Cons k ks)
  obtain dd r1 where ur: "update_row env (now i) block i k d = (dd, r1)"
    by (cases "update_row env (now i) block i k d")
  show ?case
  proof (cases r1)
    case (Inl e)
    with Cons.prems ur show ?thesis by (auto simp: rel_result_def)
  next
    case (Inr c)
    from step [OF Cons.prems(1), of k c dd]
    consider e where "f k c dd a = Inl e" "g k c dd b = Inl e"
      | a1 b1 where "f k c dd a = Inr a1" "g k c dd b = Inr b1" "R a1 b1"
      by (auto simp: rel_result_def)
    then show ?thesis
    proof cases
      case 1
      with Cons.prems ur Inr show ?thesis by (auto simp: rel_result_def)
    next
      case 2
      with Cons.prems ur Inr
      have "update_block env now f block (Suc i) ks dd a1 = (d', ra)" by simp
      from Cons.IH [OF 2(3) this] ur Inr 2 show ?thesis by simp
    qed
  qed
qed

lemma update_stream_sim:
  assumes step: "\<And>k c d a b. R a b \<Longrightarrow> rel_result R (f k c d a) (g k c d b)"
    and "R a b"
    and "update_stream env now f n blocks d a = (d', ra)"
  shows "\<exists>rb. update_stream env now g n blocks d b = (d', rb) \<and> rel_result R ra rb"
  using assms(2,3)
proof (induction blocks arbitrary: n d a b)
  case Nil
  then show ?case by (auto simp: rel_result_def)
next
  case (Cons block blocks)
  show ?case
  proof (cases "block = []")
    case True
    with Cons.prems show ?thesis by (auto simp: rel_result_def)
  next
    case ne: False
    show ?thesis
    proof (cases "typeid_cast_UInt64 (block ! 0)")
      case None
      with Cons.prems ne show ?thesis by (auto simp: rel_result_def)
    next
      case (Some ids)
      obtain dd r1 where ub: "update_block env (now n) f block 0 ids d a = (dd, r1)"
        by (cases "update_block env (now n) f block 0 ids d a")
      from update_block_sim [of R f g, OF step Cons.prems(1) ub]
      obtain r2 where ub2: "update_block env (now n) g block 0 ids d b = (dd, r2)"
        and rel: "rel_result R r1 r2" by blast
      from rel consider e where "r1 = Inl e" "r2 = Inl e"
        | a1 b1 where "r1 = Inr a1" "r2 = Inr b1" "R a1 b1"
        by (auto simp: rel_result_def)
      then show ?thesis
      proof cases
        case 1
        with Cons.prems ne Some ub ub2 show ?thesis by (auto simp: rel_result_def)
      next
        case 2
        with Cons.prems ne Some ub
        have "update_stream env now f (Suc n) blocks dd a1 = (d', ra)" by simp
        from Cons.IH [OF 2(3) this] ne Some ub2 2 show ?thesis by simp
      qed
    qed
  qed
qed


lemma update_stream_inv:
  assumes step: "\<And>k c d a a'. I a \<Longrightarrow> f k c d a = Inr a' \<Longrightarrow> I a'"
    and "I a"
    and u: "update_stream env now f n blocks d a = (d', Inr a')"
  shows "I a'"
proof -
  have s: "\<And>k c d a b. I a \<and> a = b \<Longrightarrow> rel_result (\<lambda>a b. I a \<and> a = b) (f k c d a) (f k c d b)"
    using step by (case_tac "f k c d a") (auto simp: rel_result_def)
  from update_stream_sim [of "\<lambda>a b. I a \<and> a = b" f f a a env now n blocks d d' "Inr a'", OF s _ u] assms(2)
  show ?thesis by (auto simp: rel_result_def)
qed

lemma set_missing_Inr:
  "set_missing js v out = Inr out' \<longleftrightarrow>
     (\<forall>j \<in> set js. j < length out) \<and> length out' = length out \<and>
     (\<forall>j < length out. out' ! j = (if j \<in> set js then v else out ! j))"
proof (induction js arbitrary: out)
  case Nil
  then show ?case by (auto intro: nth_equalityI)
next
  case (Cons j js)
  show ?case
  proof (cases "j < length out")
    case False
    then show ?thesis by (auto simp: assign_def)
  next
    case True
    then have "set_missing (j # js) v out = set_missing js v (out[j := v])"
      by (simp add: assign_def)
    also have "\<dots> = Inr out' \<longleftrightarrow> (\<forall>j' \<in> set js. j' < length out) \<and> length out' = length out \<and>
     (\<forall>j' < length out. out' ! j' = (if j' \<in> set js then v else (out[j := v]) ! j'))"
      by (simp add: Cons.IH)
    finally show ?thesis using True by (auto simp: nth_list_update)
  qed
qed

subsection \<open>The values of a scalar lookup\<close>

lemma positions_fetch_mem:
  assumes "\<forall>k. positions od k = filter (\<lambda>j. ids ! j = k \<and> miss env now d ids j) [0..<length ids]"
  shows "j \<in> set (positions od k) \<longleftrightarrow> j < length ids \<and> ids ! j = k \<and> miss env now d ids j"
  using assms by auto

lemma scalar_refresh_sim:
  assumes f: "fetch env now_r d null arr 0 ids out [] = Inr (out1, od)"
    and ne: "od \<noteq> []"
    and u: "update env now_u d (map fst od) (on_cell_updated_scalar ptr idx od) out1 = (d', r)"
  shows "\<exists>rb. update env now_u d (map fst od) (record_value ptr idx) Map.empty = (d', rb) \<and>
           rel_result (patched ids (miss env now_r d ids) out1) r rb"
proof -
  note F = fetch_Inr [OF f, of ids "[]", simplified]
  from F have len1: "length out1 = length out" by simp
  from ne obtain p where "p \<in> set od" by (cases od) auto
  then have "fst p \<in> set (map fst od)" by simp
  with F have "fst p \<in> {ids ! j |j. j < length ids \<and> miss env now_r d ids j}" by simp
  then have "ids \<noteq> []" by auto
  with F have le: "length ids \<le> length out" by simp
  from F have pos: "\<forall>k. positions od k = filter (\<lambda>j. ids ! j = k \<and> miss env now_r d ids j) [0..<length ids]"
    by simp
  let ?R = "patched ids (miss env now_r d ids) out1"
  have R0: "?R out1 Map.empty" by (simp add: patched_def)
  have step: "\<And>k c d a b. ?R a b \<Longrightarrow>
      rel_result ?R (on_cell_updated_scalar ptr idx od k c d a) (record_value ptr idx k c d b)"
  proof -
    fix k c d2 a b assume Rab: "?R a b"
    show "rel_result ?R (on_cell_updated_scalar ptr idx od k c d2 a) (record_value ptr idx k c d2 b)"
    proof (cases "load (ptr (arrays (attributes d2 ! idx))) c")
      case (Inl e)
      then show ?thesis by (simp add: rel_result_def on_cell_updated_scalar_def record_value_def)
    next
      case (Inr v)
      have bnd: "\<forall>j \<in> set (positions od k). j < length a"
        using Rab le len1 by (auto simp: positions_fetch_mem [OF pos] patched_def)
      define a' where "a' = map (\<lambda>j. if j \<in> set (positions od k) then v else a ! j) [0..<length a]"
      have sm: "set_missing (positions od k) v a = Inr a'"
        unfolding set_missing_Inr using bnd by (simp add: a'_def)
      have "?R a' (b(k \<mapsto> v))"
        using Rab unfolding patched_def a'_def
        by (auto simp: positions_fetch_mem [OF pos])
      with sm Inr show ?thesis
        by (simp add: rel_result_def on_cell_updated_scalar_def record_value_def)
    qed
  qed
  from u have u': "update_stream env now_u (on_cell_updated_scalar ptr idx od) 0
      (loadIds env (map fst od)) d out1 = (d', r)" by (simp add: update_def)
  from update_stream_sim [of ?R _ "record_value ptr idx", OF step R0 u']
  show ?thesis by (simp add: update_def)
qed

lemma getItems_values:
  assumes g: "getItems env now_r now_u get ptr d idx ids out = (d', Inr out')"
  shows "\<exists>m. refresh_of env now_r now_u ptr idx d ids d' m \<and>
           length out' = length out \<and> (ids \<noteq> [] \<longrightarrow> length ids \<le> length out) \<and>
           (\<forall>i < length ids. value_for env now_r d (get (null_values (attributes d ! idx)))
               (ptr (arrays (attributes d ! idx))) m ids i (out' ! i))"
  using g
proof (cases rule: getItems_cases)
  case bad_idx
  then show ?thesis by simp
next
  case (fetch_failed e)
  then show ?thesis by simp
next
  case (all_hit out1)
  note F = fetch_Inr [OF all_hit(2), of ids "[]", simplified]
  from F have nomiss: "\<forall>j < length ids. \<not> miss env now_r d ids j" by auto
  then have r: "refresh_of env now_r now_u ptr idx d ids d' Map.empty"
    using all_hit(3) by (auto simp: refresh_of_def)
  have v: "\<forall>i < length ids. value_for env now_r d (get (null_values (attributes d ! idx)))
               (ptr (arrays (attributes d ! idx))) Map.empty ids i (out1 ! i)"
    using F nomiss by (auto simp: value_for_def)
  from r v F all_hit(4) show ?thesis by auto
next
  case (refresh out1 od)
  let ?null = "get (null_values (attributes d ! idx))"
  let ?arr = "ptr (arrays (attributes d ! idx))"
  note F = fetch_Inr [OF refresh(2), of ids "[]", simplified]
  from F have len1: "length out1 = length out" by simp
  from refresh(3) obtain p where "p \<in> set od" by (cases od) auto
  then have "fst p \<in> set (map fst od)" by simp
  with F have "fst p \<in> {ids ! j |j. j < length ids \<and> miss env now_r d ids j}" by simp
  then have ex: "\<exists>j < length ids. miss env now_r d ids j" by auto
  then have ne: "ids \<noteq> []" by auto
  with F have le: "length ids \<le> length out" by simp
  from scalar_refresh_sim [OF refresh(2,3,4)]
  obtain m where um: "update env now_u d (map fst od) (record_value ptr idx) Map.empty = (d', Inr m)"
    and Rm: "patched ids (miss env now_r d ids) out1 out' m" by (auto simp: rel_result_def)
  have keys: "set (map fst od) = {ids ! j |j. j < length ids \<and> miss env now_r d ids j}"
    and dist: "distinct (map fst od)" using F by simp_all
  from keys dist um
  have "\<exists>req. set req = {ids ! j |j. j < length ids \<and> miss env now_r d ids j} \<and>
             distinct req \<and>
             update env now_u d req (record_value ptr idx) Map.empty = (d', Inr m)" by blast
  with ex have r: "refresh_of env now_r now_u ptr idx d ids d' m"
    by (simp add: refresh_of_def)
  have v: "\<forall>i < length ids. value_for env now_r d ?null ?arr m ids i (out' ! i)"
  proof (intro allI impI)
    fix i assume i: "i < length ids"
    with le len1 have i1: "i < length out1" by simp
    from F i have f: "if ids ! i = 0 \<or> miss env now_r d ids i then out1 ! i = ?null
        else load ?arr (unat (getCellIdx env d (ids ! i))) = Inr (out1 ! i)" by blast
    from Rm i1 have o: "out' ! i = (if i < length ids \<and> miss env now_r d ids i
         then (case m (ids ! i) of Some v \<Rightarrow> v | None \<Rightarrow> out1 ! i) else out1 ! i)"
      by (simp add: patched_def)
    show "value_for env now_r d ?null ?arr m ids i (out' ! i)"
      using f o i by (auto simp: value_for_def miss_def split: option.splits)
  qed
  from Rm have "length out' = length out" using len1 by (simp add: patched_def)
  with r v le show ?thesis by blast
qed

lemma fetch_no_OutIndex:
  "fetch env now d null arr i ks out od = Inl (UNDEFINED_BEHAVIOUR OutIndex) \<Longrightarrow>
     \<not> i + length ks \<le> length out"
proof (induction ks arbitrary: i out od)
  case Nil
  then show ?case by simp
next
  case (Cons k ks)
  show ?case
  proof
    assume le: "i + length (k # ks) \<le> length out"
    then have i: "i < length out" by simp
    have a: "\<And>v. assign out i v = Inr (out[i := v])" using i by (simp add: assign_def)
    have IH: "\<And>v od. fetch env now d null arr (Suc i) ks (out[i := v]) od \<noteq> Inl (UNDEFINED_BEHAVIOUR OutIndex)"
      using Cons.IH le by fastforce
    from Cons.prems show False
      by (auto simp: a bindE_eq_Inl cell_at_Inl load_def IH split: if_splits option.splits)
  qed
qed

lemma record_value_Inl: "record_value ptr idx k c d m = Inl e \<Longrightarrow> row_error e"
  by (auto simp: record_value_def bindE_eq_Inl dest: load_Inl)

lemma getItems_no_OutIndex:
  assumes g: "getItems env now_r now_u get ptr d idx ids out = (d', r)"
    and le: "length ids \<le> length out"
  shows "r \<noteq> Inl (UNDEFINED_BEHAVIOUR OutIndex)"
  using g
proof (cases rule: getItems_cases)
  case bad_idx
  then show ?thesis by simp
next
  case (fetch_failed e)
  with fetch_no_OutIndex [of env now_r d _ _ 0 ids out "[]"] le show ?thesis by auto
next
  case (all_hit out1)
  then show ?thesis by simp
next
  case (refresh out1 od)
  from scalar_refresh_sim [OF refresh(2,3,4)]
  obtain rb where um: "update env now_u d (map fst od) (record_value ptr idx) Map.empty = (d', rb)"
    and rel: "rel_result (patched ids (miss env now_r d ids) out1) r rb" by blast
  show ?thesis
  proof
    assume "r = Inl (UNDEFINED_BEHAVIOUR OutIndex)"
    with rel have "rb = Inl (UNDEFINED_BEHAVIOUR OutIndex)" by (auto simp: rel_result_def)
    with um have "update_stream env now_u (record_value ptr idx) 0 (loadIds env (map fst od)) d Map.empty
       = (d', Inl (UNDEFINED_BEHAVIOUR OutIndex))" by (simp add: update_def)
    from update_stream_Inl [where P = row_error, OF record_value_Inl _ this]
    show False by (auto simp: row_error_def)
  qed
qed

subsection \<open>The output array of a scalar lookup\<close>

text \<open>
  C9. The batched scalar getter writes \<open>out\<close> by plain indexing and never changes its
  length: a call that returns leaves the length of \<open>out\<close> as it was and had
  \<open>length ids \<le> length out\<close>; and when the caller supplies \<open>out\<close> with at least
  \<open>length ids\<close> elements, no write to \<open>out\<close> is out of bounds, whatever the cache
  state and the source.
\<close>

theorem getItems_out_in_bounds:
  assumes "getItems env now_r now_u get ptr d idx ids out = (d', r)"
  shows "(length ids \<le> length out \<longrightarrow> r \<noteq> Inl (UNDEFINED_BEHAVIOUR OutIndex)) \<and>
         (\<forall>out'. r = Inr out' \<longrightarrow> length out' = length out \<and> length ids \<le> length out)"
proof (intro conjI impI allI)
  assume "length ids \<le> length out"
  with assms show "r \<noteq> Inl (UNDEFINED_BEHAVIOUR OutIndex)" by (rule getItems_no_OutIndex)
next
  fix out' assume "r = Inr out'"
  with assms have "getItems env now_r now_u get ptr d idx ids out = (d', Inr out')" by simp
  from getItems_values [OF this] show "length out' = length out" by blast
next
  fix out' assume "r = Inr out'"
  with assms have "getItems env now_r now_u get ptr d idx ids out = (d', Inr out')" by simp
  from getItems_values [OF this] show "length ids \<le> length out" by (cases "ids = []") auto
qed

theorem getItems_out_in_bounds_witness:
  "getItems (env0 [row_block 1 7 [97]]) clock0 clock0u get_UInt32 ptr_UInt32 cache0 0 [1] [0]
     = (cache1, Inr [7]) \<and>
   length [1 :: id_t] \<le> length [0 :: 32 word] \<and>
   (Inr [7] :: error + 32 word list) \<noteq> Inl (UNDEFINED_BEHAVIOUR OutIndex) \<and>
   length [7 :: 32 word] = length [0 :: 32 word]"
proof -
  have h: "getItems (env0 [row_block 1 7 [97]]) clock0 clock0u get_UInt32 ptr_UInt32 cache0 0 [1] [0]
     = (cache1, Inr [7])"
    by (simp add: eval_simps)
  from getItems_out_in_bounds [OF h] h show ?thesis by simp
qed

text \<open>With an output array shorter than the batch the first pass runs out of it.\<close>

lemma getItems_short_out:
  "getItems (env0 []) clock0 clock0u get_UInt32 ptr_UInt32 cache0 0 [0, 0] [3]
     = (cache0, Inl (UNDEFINED_BEHAVIOUR OutIndex))"
  by (simp add: eval_simps)

subsection \<open>The passes of a string lookup\<close>

lemma insertData_String:
  "insertData (Some (c_str s)) (length s) c =
     Inr (c\<lparr>chars := chars c @ s @ [0], offsets := offsets c @ [length (chars c) + length s + 1]\<rparr>)"
  by (simp add: insertData_def read_bytes_def c_str_def)

lemma insertData_ref:
  "to_String r = Inr s \<Longrightarrow> insertData (ref_data r) (ref_size r) c =
     Inr (c\<lparr>chars := chars c @ s @ [0], offsets := offsets c @ [length (chars c) + length s + 1]\<rparr>)"
  by (auto simp: insertData_def to_String_def read_bytes_def split: option.splits if_splits)

lemma insertData_Inr_ref:
  "insertData (ref_data r) (ref_size r) c = Inr c' \<Longrightarrow> \<exists>s. to_String r = Inr s"
  by (auto simp: insertData_def to_String_def bindE_eq_Inr)

lemma insert_rows_append: "insert_rows (ss @ ts) c = insert_rows ts (insert_rows ss c)"
  by (induction ss arbitrary: c) simp_all

lemma emit_eq:
  "emit null m ks c = Inr (insert_rows (map (\<lambda>k. case m k of Some s \<Rightarrow> s | None \<Rightarrow> null) ks) c)"
  by (induction ks arbitrary: c) (simp_all add: insertData_String Let_def)

lemma optimistic_completed:
  assumes "optimistic env now d null arr i ks out = Inr (out', False)"
    and "ids = pre @ ks" and "length pre = i"
  shows "(\<forall>j. i \<le> j \<and> j < length ids \<longrightarrow> \<not> miss env now d ids j) \<and>
         (\<exists>ss. length ss = length ks \<and> out' = insert_rows ss out \<and>
            (\<forall>j < length ks. if ks ! j = 0 then ss ! j = null
                              else resident env d arr (ks ! j) = Inr (ss ! j)))"
  using assms
proof (induction ks arbitrary: pre i out)
  case Nil
  then show ?case by auto
next
  case (Cons k ks)
  from Cons.prems(2,3) have k: "ids ! i = k" and iin: "i < length ids" by auto
  have p2: "ids = (pre @ [k]) @ ks" "length (pre @ [k]) = Suc i"
    using Cons.prems(2,3) by simp_all
  obtain s where
    o: "optimistic env now d null arr (Suc i) ks
          (out\<lparr>chars := chars out @ s @ [0], offsets := offsets out @ [length (chars out) + length s + 1]\<rparr>)
          = Inr (out', False)"
    and nm: "\<not> miss env now d ids i"
    and sv: "if k = 0 then s = null else resident env d arr k = Inr s"
  proof (cases "k = 0")
    case True
    with Cons.prems(1) k show ?thesis
      by (intro that [of null]) (auto simp: insertData_String miss_def)
  next
    case False
    with Cons.prems(1) obtain cell where
      c: "cell_at (cells d) (unat (getCellIdx env d k)) = Inr cell" and
      r: "(if cell_id cell \<noteq> k \<or> hasTimeExpired (now i) (expires_at cell) then Inr (out, True)
         else
           bindE (load arr (unat (getCellIdx env d k))) (\<lambda>string_ref.
             bindE (insertData (ref_data string_ref) (ref_size string_ref) out)
               (\<lambda>out'. optimistic env now d null arr (Suc i) ks out'))) = Inr (out', False)"
      by (auto simp: bindE_eq_Inr)
    from c have ce: "cell = cells d ! unat (getCellIdx env d k)" by (simp add: cell_at_Inr)
    from r have hit: "\<not> (cell_id cell \<noteq> k \<or> hasTimeExpired (now i) (expires_at cell))"
      by (auto split: if_splits)
    with r obtain sr out1 where l: "load arr (unat (getCellIdx env d k)) = Inr sr"
      and ins: "insertData (ref_data sr) (ref_size sr) out = Inr out1"
      and o1: "optimistic env now d null arr (Suc i) ks out1 = Inr (out', False)"
      by (auto simp: bindE_eq_Inr)
    from insertData_Inr_ref [OF ins] obtain s where s: "to_String sr = Inr s" by blast
    from insertData_ref [OF s, of out] ins have
      "out1 = out\<lparr>chars := chars out @ s @ [0], offsets := offsets out @ [length (chars out) + length s + 1]\<rparr>"
      by simp
    with o1 hit False k ce l s show ?thesis
      by (intro that [of s]) (auto simp: miss_def outdated_def resident_def)
  qed
  from Cons.IH [OF o p2] obtain ss where
    nm': "\<forall>j. Suc i \<le> j \<and> j < length ids \<longrightarrow> \<not> miss env now d ids j" and
    ss: "length ss = length ks"
      "out' = insert_rows ss (out\<lparr>chars := chars out @ s @ [0], offsets := offsets out @ [length (chars out) + length s + 1]\<rparr>)"
      "\<forall>j < length ks. if ks ! j = 0 then ss ! j = null
                              else resident env d arr (ks ! j) = Inr (ss ! j)"
    by blast
  have 1: "\<forall>j. i \<le> j \<and> j < length ids \<longrightarrow> \<not> miss env now d ids j"
  proof (intro allI impI)
    fix j assume "i \<le> j \<and> j < length ids"
    then show "\<not> miss env now d ids j" using nm nm' by (cases "j = i") auto
  qed
  have 2: "length (s # ss) = length (k # ks)" "out' = insert_rows (s # ss) out"
    using ss by simp_all
  have 3: "\<forall>j < length (k # ks). if (k # ks) ! j = 0 then (s # ss) ! j = null
                              else resident env d arr ((k # ks) ! j) = Inr ((s # ss) ! j)"
  proof (intro allI impI)
    fix j assume "j < length (k # ks)"
    then show "if (k # ks) ! j = 0 then (s # ss) ! j = null
                              else resident env d arr ((k # ks) ! j) = Inr ((s # ss) ! j)"
      using sv ss(3) by (cases j) auto
  qed
  from 1 2 3 show ?case by blast
qed


lemma map_fst_increment:
  "map fst (increment k m) = (if map_of m k = None then map fst m @ [k] else map fst m)"
  by (cases "map_of m k") (simp_all add: increment_def fst_map_upd)

lemma keys_increment:
  "set (map fst (increment k m)) = insert k (set (map fst m))"
proof (cases "map_of m k")
  case None
  then show ?thesis by (simp add: map_fst_increment)
next
  case (Some l)
  then have "k \<in> set (map fst m)" by (metis map_of_eq_None_iff option.distinct(1) set_map)
  with Some show ?thesis by (auto simp: map_fst_increment simp del: set_map)
qed

lemma distinct_increment:
  "distinct (map fst m) \<Longrightarrow> distinct (map fst (increment k m))"
  by (auto simp: map_fst_increment map_of_eq_None_iff)

lemma scan_step:
  assumes "scan env now d arr i (k # ks) od m tlen = Inr (od', m', tlen')"
    and "ids = pre @ k # ks" and "length pre = i"
  obtains od1 m1 tlen1 where
    "scan env now d arr (Suc i) ks od1 m1 tlen1 = Inr (od', m', tlen')"
    "od1 = (if miss env now d ids i then increment k od else od)"
    "ids ! i = 0 \<or> miss env now d ids i \<Longrightarrow> m1 = m"
    "\<not> (ids ! i = 0 \<or> miss env now d ids i) \<Longrightarrow>
        \<exists>s. resident env d arr k = Inr s \<and> m1 = m(k \<mapsto> s)"
proof -
  from assms(2,3) have k: "ids ! i = k" by auto
  show ?thesis
  proof (cases "k = 0")
    case True
    with assms(1) k show ?thesis by (intro that [of od m "tlen + 1"]) (auto simp: miss_def)
  next
    case False
    with assms(1) obtain cell where
      c: "cell_at (cells d) (unat (getCellIdx env d k)) = Inr cell" and
      r: "(if cell_id cell \<noteq> k \<or> hasTimeExpired (now i) (expires_at cell) then
           scan env now d arr (Suc i) ks (increment k od) m tlen
         else
           bindE (load arr (unat (getCellIdx env d k))) (\<lambda>string_ref.
             bindE (to_String string_ref) (\<lambda>s.
               scan env now d arr (Suc i) ks od (m(k \<mapsto> s))
                 (tlen + ref_size string_ref + 1)))) = Inr (od', m', tlen')"
      by (auto simp: bindE_eq_Inr)
    from c have ce: "cell = cells d ! unat (getCellIdx env d k)" by (simp add: cell_at_Inr)
    have mi: "miss env now d ids i \<longleftrightarrow> cell_id cell \<noteq> k \<or> hasTimeExpired (now i) (expires_at cell)"
      using False k ce by (simp add: miss_def outdated_def)
    show ?thesis
    proof (cases "miss env now d ids i")
      case True
      with r mi show ?thesis by (intro that [of "increment k od" m tlen]) auto
    next
      case hit: False
      with r mi obtain sr s where "load arr (unat (getCellIdx env d k)) = Inr sr"
        "to_String sr = Inr s"
        "scan env now d arr (Suc i) ks od (m(k \<mapsto> s)) (tlen + ref_size sr + 1) = Inr (od', m', tlen')"
        by (auto simp: bindE_eq_Inr)
      with hit False k show ?thesis
        by (intro that [of od "m(k \<mapsto> s)" "tlen + ref_size sr + 1"]) (auto simp: resident_def)
    qed
  qed
qed

lemma scan_Inr:
  assumes "scan env now d arr i ks od m tlen = Inr (od', m', tlen')"
    and "ids = pre @ ks" and "length pre = i"
  shows "(\<forall>j. i \<le> j \<and> j < length ids \<and> ids ! j \<noteq> 0 \<and> \<not> miss env now d ids j \<longrightarrow>
            (\<exists>s. resident env d arr (ids ! j) = Inr s \<and> m' (ids ! j) = Some s)) \<and>
         (\<forall>k. \<not> (\<exists>j. i \<le> j \<and> j < length ids \<and> ids ! j = k \<and> k \<noteq> 0 \<and> \<not> miss env now d ids j)
            \<longrightarrow> m' k = m k) \<and>
         set (map fst od') = set (map fst od) \<union>
            {ids ! j |j. i \<le> j \<and> j < length ids \<and> miss env now d ids j} \<and>
         (distinct (map fst od) \<longrightarrow> distinct (map fst od'))"
  using assms
proof (induction ks arbitrary: pre i od m tlen)
  case Nil
  then show ?case by auto
next
  case (Cons k ks)
  from Cons.prems(2,3) have k: "ids ! i = k" and iin: "i < length ids" by auto
  have p2: "ids = (pre @ [k]) @ ks" "length (pre @ [k]) = Suc i"
    using Cons.prems(2,3) by simp_all
  from Cons.prems obtain od1 m1 tlen1 where
    s: "scan env now d arr (Suc i) ks od1 m1 tlen1 = Inr (od', m', tlen')" and
    od1: "od1 = (if miss env now d ids i then increment k od else od)" and
    m1a: "ids ! i = 0 \<or> miss env now d ids i \<Longrightarrow> m1 = m" and
    m1b: "\<not> (ids ! i = 0 \<or> miss env now d ids i) \<Longrightarrow>
        \<exists>s. resident env d arr k = Inr s \<and> m1 = m(k \<mapsto> s)"
    by (rule scan_step) (rule that)
  note IH = Cons.IH [OF s p2]
  let ?later = "\<lambda>k'. \<exists>j. Suc i \<le> j \<and> j < length ids \<and> ids ! j = k' \<and> k' \<noteq> 0 \<and> \<not> miss env now d ids j"
  have a: "\<forall>j. i \<le> j \<and> j < length ids \<and> ids ! j \<noteq> 0 \<and> \<not> miss env now d ids j \<longrightarrow>
            (\<exists>s. resident env d arr (ids ! j) = Inr s \<and> m' (ids ! j) = Some s)"
  proof (intro allI impI)
    fix j assume j: "i \<le> j \<and> j < length ids \<and> ids ! j \<noteq> 0 \<and> \<not> miss env now d ids j"
    show "\<exists>s. resident env d arr (ids ! j) = Inr s \<and> m' (ids ! j) = Some s"
    proof (cases "j = i")
      case False
      with j have "Suc i \<le> j \<and> j < length ids \<and> ids ! j \<noteq> 0 \<and> \<not> miss env now d ids j" by auto
      with IH show ?thesis by blast
    next
      case True
      with j k m1b obtain s where rs: "resident env d arr k = Inr s" and m1: "m1 = m(k \<mapsto> s)"
        by auto
      show ?thesis
      proof (cases "?later k")
        case True
        then obtain j' where "Suc i \<le> j' \<and> j' < length ids \<and> ids ! j' \<noteq> 0 \<and> \<not> miss env now d ids j'"
          and "ids ! j' = k" by auto
        with IH have "\<exists>s. resident env d arr (ids ! j') = Inr s \<and> m' (ids ! j') = Some s" by blast
        with \<open>ids ! j' = k\<close> \<open>j = i\<close> k show ?thesis by simp
      next
        case False
        with IH have "m' k = m1 k" by blast
        with m1 rs \<open>j = i\<close> k show ?thesis by simp
      qed
    qed
  qed
  have b: "\<forall>k'. \<not> (\<exists>j. i \<le> j \<and> j < length ids \<and> ids ! j = k' \<and> k' \<noteq> 0 \<and> \<not> miss env now d ids j)
            \<longrightarrow> m' k' = m k'"
  proof (intro allI impI)
    fix k' assume n: "\<not> (\<exists>j. i \<le> j \<and> j < length ids \<and> ids ! j = k' \<and> k' \<noteq> 0 \<and> \<not> miss env now d ids j)"
    then have "\<not> ?later k'" by auto
    with IH have 1: "m' k' = m1 k'" by blast
    have "m1 k' = m k'"
    proof (cases "ids ! i = 0 \<or> miss env now d ids i")
      case True
      with m1a show ?thesis by simp
    next
      case False
      with n iin k have "k' \<noteq> k" by (auto simp: miss_def)
      with m1b [OF False] show ?thesis by auto
    qed
    with 1 show "m' k' = m k'" by simp
  qed
  have keys1: "set (map fst od1) = set (map fst od) \<union> (if miss env now d ids i then {k} else {})"
    unfolding od1 by (simp add: keys_increment del: set_map)
  have rng: "{ids ! j |j. i \<le> j \<and> j < length ids \<and> miss env now d ids j} =
      (if miss env now d ids i then {k} else {}) \<union>
      {ids ! j |j. Suc i \<le> j \<and> j < length ids \<and> miss env now d ids j}"
    using k iin by (auto simp: Suc_le_eq le_less)
  have keys: "set (map fst od') = set (map fst od) \<union>
      {ids ! j |j. i \<le> j \<and> j < length ids \<and> miss env now d ids j}"
  proof -
    from IH have "set (map fst od') = set (map fst od1) \<union>
      {ids ! j |j. Suc i \<le> j \<and> j < length ids \<and> miss env now d ids j}" by blast
    then show ?thesis unfolding keys1 rng by blast
  qed
  have dist: "distinct (map fst od) \<longrightarrow> distinct (map fst od')"
  proof
    assume "distinct (map fst od)"
    then have "distinct (map fst od1)" unfolding od1 by (simp add: distinct_increment)
    with IH show "distinct (map fst od')" by blast
  qed
  from a b keys dist show ?case by blast
qed

subsection \<open>What a refresh leaves unchanged\<close>

lemma frame_refl [simp]: "frame d d"
  by (simp add: frame_def)

lemma frame_trans: "frame d d1 \<Longrightarrow> frame d1 d2 \<Longrightarrow> frame d d2"
  by (simp add: frame_def)

lemma update_row_frame:
  assumes "update_row env t block i k d = (d', r)" shows "frame d d'"
proof (cases "unat (getCellIdx env d k) < length (cells d)")
  case False
  with assms show ?thesis by (simp add: update_row_def Let_def)
next
  case True
  obtain as r1 where sr: "set_row env block i (unat (getCellIdx env d k)) 0 (attributes d) = (as, r1)"
    by (cases "set_row env block i (unat (getCellIdx env d k)) 0 (attributes d)")
  from set_row_props [OF sr] assms True sr show ?thesis
    by (auto simp: update_row_def Let_def frame_def split: option.splits prod.splits)
qed

lemma update_block_frame:
  "update_block env now f block i ks d acc = (d', r) \<Longrightarrow> frame d d'"
proof (induction ks arbitrary: i d acc)
  case Nil
  then show ?case by simp
next
  case (Cons k ks)
  obtain d1 r1 where ur: "update_row env (now i) block i k d = (d1, r1)"
    by (cases "update_row env (now i) block i k d")
  then have f1: "frame d d1" by (rule update_row_frame)
  show ?case
  proof (cases r1)
    case (Inl e)
    with Cons.prems ur f1 show ?thesis by simp
  next
    case (Inr c)
    show ?thesis
    proof (cases "f k c d1 acc")
      case (Inl e)
      with Cons.prems ur \<open>r1 = Inr c\<close> f1 show ?thesis by simp
    next
      case (Inr acc1)
      with Cons.prems ur \<open>r1 = Inr c\<close>
      have "update_block env now f block (Suc i) ks d1 acc1 = (d', r)" by simp
      with f1 Cons.IH show ?thesis by (blast intro: frame_trans)
    qed
  qed
qed

lemma update_stream_frame:
  "update_stream env now f n blocks d acc = (d', r) \<Longrightarrow> frame d d'"
proof (induction blocks arbitrary: n d acc)
  case Nil
  then show ?case by simp
next
  case (Cons block blocks)
  show ?case
  proof (cases "block = []")
    case True
    with Cons.prems show ?thesis by simp
  next
    case ne: False
    show ?thesis
    proof (cases "typeid_cast_UInt64 (block ! 0)")
      case None
      with Cons.prems ne show ?thesis by simp
    next
      case (Some ids)
      obtain d1 r1 where ub: "update_block env (now n) f block 0 ids d acc = (d1, r1)"
        by (cases "update_block env (now n) f block 0 ids d acc")
      then have f1: "frame d d1" by (rule update_block_frame)
      show ?thesis
      proof (cases r1)
        case (Inl e)
        with Cons.prems ne Some ub f1 show ?thesis by simp
      next
        case (Inr acc1)
        with Cons.prems ne Some ub
        have "update_stream env now f (Suc n) blocks d1 acc1 = (d', r)" by simp
        with f1 Cons.IH show ?thesis by (blast intro: frame_trans)
      qed
    qed
  qed
qed

lemma update_frame: "update env now d ids f acc = (d', r) \<Longrightarrow> frame d d'"
  unfolding update_def by (rule update_stream_frame)

lemma frame_null_values:
  "frame d d' \<Longrightarrow> idx < length (attributes d) \<Longrightarrow>
     null_values (attributes d' ! idx) = null_values (attributes d ! idx)"
proof -
  assume f: "frame d d'" and i: "idx < length (attributes d)"
  from f have m: "map null_values (attributes d') = map null_values (attributes d)"
    by (simp add: frame_def)
  then have "length (attributes d') = length (attributes d)" by (rule map_eq_imp_length_eq)
  with i have "map null_values (attributes d') ! idx = null_values (attributes d' ! idx)" by simp
  moreover from i have "map null_values (attributes d) ! idx = null_values (attributes d ! idx)" by simp
  ultimately show ?thesis using m by simp
qed

lemma string_refresh_sim:
  assumes u: "update env now_u d req (on_cell_updated_string idx) (m0, n0) = (d', r)"
  shows "\<exists>rb. update env now_u d req (on_cell_updated_string idx) (Map.empty, 0) = (d', rb) \<and>
           rel_result (\<lambda>a b. fst a = m0 ++ fst b) r rb"
proof -
  let ?R = "\<lambda>(a :: (id_t \<rightharpoonup> String) \<times> nat) (b :: (id_t \<rightharpoonup> String) \<times> nat). fst a = m0 ++ fst b"
  have step: "\<And>k c d a b. ?R a b \<Longrightarrow>
      rel_result ?R (on_cell_updated_string idx k c d a) (on_cell_updated_string idx k c d b)"
  proof -
    fix k c d2 and a b :: "(id_t \<rightharpoonup> String) \<times> nat" assume Rab: "?R a b"
    show "rel_result ?R (on_cell_updated_string idx k c d2 a) (on_cell_updated_string idx k c d2 b)"
    proof (cases "bindE (load (ptr_StringRef (arrays (attributes d2 ! idx))) c) (\<lambda>v. bindE (to_String v) (\<lambda>s. Inr (v, s)))")
      case (Inl e)
      then show ?thesis
        by (auto simp: rel_result_def on_cell_updated_string_def bindE_eq_Inl)
    next
      case (Inr p)
      then show ?thesis using Rab
        by (auto simp: rel_result_def on_cell_updated_string_def bindE_eq_Inr)
    qed
  qed
  from u have u': "update_stream env now_u (on_cell_updated_string idx) 0 (loadIds env req) d (m0, n0) = (d', r)"
    by (simp add: update_def)
  have R0: "?R (m0, n0) (Map.empty, 0)" by simp
  from update_stream_sim [of ?R _ "on_cell_updated_string idx", OF step R0 u']
  show ?thesis by (simp add: update_def)
qed

subsection \<open>The rows of a string lookup\<close>

lemma column_reset: "(c :: ColumnString)\<lparr>chars := [], offsets := []\<rparr> = empty_column"
  by (simp add: empty_column_def)

lemma pessimistic_cases:
  assumes "pessimistic env now_p now_u d idx ids out = (d', r)"
  obtains (scan_failed) e where
      "scan env now_p d (ptr_StringRef (arrays (attributes d ! idx))) 0 ids [] Map.empty 0 = Inl e"
      "d' = d" "r = Inl e"
  | (all_hit) m0 n0 where
      "scan env now_p d (ptr_StringRef (arrays (attributes d ! idx))) 0 ids [] Map.empty 0
         = Inr ([], m0, n0)"
      "d' = d"
      "r = emit (get_String (null_values (attributes d ! idx))) m0 ids empty_column"
  | (refresh_failed) od m0 n0 e where
      "scan env now_p d (ptr_StringRef (arrays (attributes d ! idx))) 0 ids [] Map.empty 0
         = Inr (od, m0, n0)" "od \<noteq> []"
      "update env now_u d (map fst od) (on_cell_updated_string idx) (m0, n0) = (d', Inl e)"
      "r = Inl e"
  | (refreshed) od m0 n0 m1 n1 where
      "scan env now_p d (ptr_StringRef (arrays (attributes d ! idx))) 0 ids [] Map.empty 0
         = Inr (od, m0, n0)" "od \<noteq> []"
      "update env now_u d (map fst od) (on_cell_updated_string idx) (m0, n0) = (d', Inr (m1, n1))"
      "r = emit (get_String (null_values (attributes d' ! idx))) m1 ids empty_column"
proof (cases "scan env now_p d (ptr_StringRef (arrays (attributes d ! idx))) 0 ids [] Map.empty 0")
  case (Inl e)
  with assms have "d' = d" "r = Inl e" by (auto simp: pessimistic_def)
  with Inl show ?thesis by (rule scan_failed)
next
  case (Inr p)
  obtain od m0 n0 where p: "p = (od, m0, n0)" by (cases p)
  show ?thesis
  proof (cases "od = []")
    case True
    with assms Inr p have "d' = d"
      "r = emit (get_String (null_values (attributes d ! idx))) m0 ids empty_column"
      by (auto simp: pessimistic_def column_reset)
    with Inr [unfolded p True] show ?thesis by (rule all_hit)
  next
    case False
    obtain d2 r2 where u: "update env now_u d (map fst od) (on_cell_updated_string idx) (m0, n0) = (d2, r2)"
      by (cases "update env now_u d (map fst od) (on_cell_updated_string idx) (m0, n0)")
    show ?thesis
    proof (cases r2)
      case (Inl e)
      with assms Inr p False u have "d' = d2" "r = Inl e"
        by (auto simp: pessimistic_def)
      with Inr [unfolded p] False u Inl show ?thesis by (intro refresh_failed [of od m0 n0 e]) simp_all
    next
      case r2: (Inr q)
      obtain m1 n1 where q: "q = (m1, n1)" by (cases q)
      with assms Inr p False u r2 have "d' = d2"
        "r = emit (get_String (null_values (attributes d2 ! idx))) m1 ids empty_column"
        by (auto simp: pessimistic_def column_reset)
      with Inr [unfolded p] False u r2 q show ?thesis
        by (intro refreshed [of od m0 n0 m1 n1]) simp_all
    qed
  qed
qed


lemma map_add_case: "(m0 ++ m) k = (case m k of Some x \<Rightarrow> Some x | None \<Rightarrow> m0 k)"
  by (simp add: map_add_def)

lemma scan_rows:
  assumes s: "scan env now d arr 0 ids [] Map.empty 0 = Inr (od, m0, n0)"
    and i: "i < length ids"
  shows "row_for env d null arr Map.empty (ids ! i)
           (\<forall>j < length ids. ids ! j = ids ! i \<longrightarrow> miss env now d ids j)
           (case m0 (ids ! i) of Some x \<Rightarrow> x | None \<Rightarrow> null)"
proof -
  note S = scan_Inr [OF s, of ids "[]", simplified]
  show ?thesis
  proof (cases "\<exists>j < length ids. ids ! j = ids ! i \<and> ids ! i \<noteq> 0 \<and> \<not> miss env now d ids j")
    case True
    then obtain j where j: "j < length ids" "ids ! j = ids ! i" "ids ! j \<noteq> 0" "\<not> miss env now d ids j"
      by auto
    with S obtain x where "resident env d arr (ids ! j) = Inr x" "m0 (ids ! j) = Some x" by blast
    with j show ?thesis by (auto simp: row_for_def)
  next
    case False
    with S have "m0 (ids ! i) = None" by auto
    moreover from False have "ids ! i = 0 \<or> (\<forall>j < length ids. ids ! j = ids ! i \<longrightarrow> miss env now d ids j)"
      by auto
    ultimately show ?thesis by (auto simp: row_for_def)
  qed
qed

lemma row_for_delivered:
  assumes "row_for env d null arr Map.empty k b (case m0 k of Some x \<Rightarrow> x | None \<Rightarrow> null)"
  shows "row_for env d null arr m k b (case (m0 ++ m) k of Some x \<Rightarrow> x | None \<Rightarrow> null)"
  using assms by (cases "m k") (auto simp: row_for_def map_add_case)

lemma rows_for_map:
  assumes "\<And>i. i < length ids \<Longrightarrow> row_for env d null arr m (ids ! i)
               (\<forall>j < length ids. ids ! j = ids ! i \<longrightarrow> miss env now d ids j) (f (ids ! i))"
  shows "rows_for env now d null arr m ids (map f ids)"
  using assms by (simp add: rows_for_def)

lemma pessimistic_rows:
  assumes p: "pessimistic env now_p now_u d idx ids out = (d', Inr out')"
    and idx: "idx < length (attributes d)"
  shows "\<exists>m ss. string_refresh_of env now_p now_u idx d ids d' m \<and>
           out' = insert_rows ss empty_column \<and>
           rows_for env now_p d (get_String (null_values (attributes d ! idx)))
               (ptr_StringRef (arrays (attributes d ! idx))) m ids ss \<and>
           (\<forall>i < length ids. \<forall>x. m (ids ! i) = Some x \<longrightarrow> ss ! i = x)"
  using p
proof (cases rule: pessimistic_cases)
  case (scan_failed e)
  then show ?thesis by simp
next
  case (all_hit m0 n0)
  let ?null = "get_String (null_values (attributes d ! idx))"
  let ?f = "\<lambda>k. case m0 k of Some s \<Rightarrow> s | None \<Rightarrow> ?null"
  note S = scan_Inr [OF all_hit(1), of ids "[]", simplified]
  from S have "\<forall>j < length ids. \<not> miss env now_p d ids j" by auto
  with all_hit(2) have r: "string_refresh_of env now_p now_u idx d ids d' Map.empty"
    by (auto simp: string_refresh_of_def)
  from all_hit(3) have o: "out' = insert_rows (map ?f ids) empty_column" by (simp add: emit_eq)
  have rows: "rows_for env now_p d ?null (ptr_StringRef (arrays (attributes d ! idx)))
      Map.empty ids (map ?f ids)"
    by (rule rows_for_map) (rule scan_rows [OF all_hit(1)])
  from r o rows show ?thesis by (intro exI [of _ Map.empty] exI [of _ "map ?f ids"]) simp
next
  case (refresh_failed od m0 n0 e)
  then show ?thesis by simp
next
  case (refreshed od m0 n0 m1 n1)
  let ?null = "get_String (null_values (attributes d ! idx))"
  let ?f = "\<lambda>k. case m1 k of Some s \<Rightarrow> s | None \<Rightarrow> ?null"
  note S = scan_Inr [OF refreshed(1), of ids "[]", simplified]
  from refreshed(2) obtain q where "q \<in> set od" by (cases od) auto
  then have "fst q \<in> set (map fst od)" by simp
  with S have "fst q \<in> {ids ! j |j. j < length ids \<and> miss env now_p d ids j}" by simp
  then have ex: "\<exists>j < length ids. miss env now_p d ids j" by auto
  have keys: "set (map fst od) = {ids ! j |j. j < length ids \<and> miss env now_p d ids j}"
    and dist: "distinct (map fst od)" using S by simp_all
  from string_refresh_sim [OF refreshed(3)]
  obtain m n where um: "update env now_u d (map fst od) (on_cell_updated_string idx) (Map.empty, 0)
        = (d', Inr (m, n))" and m1: "m1 = m0 ++ m"
    by (auto simp: rel_result_def)
  from keys dist um
  have "\<exists>req n. set req = {ids ! j |j. j < length ids \<and> miss env now_p d ids j} \<and>
             distinct req \<and>
             update env now_u d req (on_cell_updated_string idx) (Map.empty, 0) = (d', Inr (m, n))"
    by blast
  with ex have r: "string_refresh_of env now_p now_u idx d ids d' m"
    by (simp add: string_refresh_of_def)
  from update_frame [OF refreshed(3)] idx
  have "null_values (attributes d' ! idx) = null_values (attributes d ! idx)"
    by (rule frame_null_values)
  with refreshed(4) have o: "out' = insert_rows (map ?f ids) empty_column" by (simp add: emit_eq)
  have rows: "rows_for env now_p d ?null (ptr_StringRef (arrays (attributes d ! idx)))
      m ids (map ?f ids)"
  proof (rule rows_for_map)
    fix i assume i: "i < length ids"
    from scan_rows [OF refreshed(1) i, of ?null]
    show "row_for env d ?null (ptr_StringRef (arrays (attributes d ! idx))) m (ids ! i)
               (\<forall>j < length ids. ids ! j = ids ! i \<longrightarrow> miss env now_p d ids j) (?f (ids ! i))"
      unfolding m1 by (rule row_for_delivered)
  qed
  have del: "\<forall>i < length ids. \<forall>x. m (ids ! i) = Some x \<longrightarrow> map ?f ids ! i = x"
    by (simp add: m1 map_add_case)
  from r o rows del show ?thesis by blast
qed

lemma scan_of_optimistic:
  assumes "optimistic env now_o d null arr i ks out = Inr (out', False)"
    and "\<forall>j. i \<le> j \<and> j < length ids \<longrightarrow> \<not> miss env now_p d ids j"
    and "ids = pre @ ks" and "length pre = i"
  shows "\<exists>m' n'. scan env now_p d arr i ks od m n = Inr (od, m', n')"
  using assms
proof (induction ks arbitrary: pre i out m n)
  case Nil
  then show ?case by simp
next
  case (Cons k ks)
  from Cons.prems(3,4) have k: "ids ! i = k" and iin: "i < length ids" by auto
  have p2: "ids = (pre @ [k]) @ ks" "length (pre @ [k]) = Suc i"
    using Cons.prems(3,4) by simp_all
  have later: "\<forall>j. Suc i \<le> j \<and> j < length ids \<longrightarrow> \<not> miss env now_p d ids j"
    using Cons.prems(2) by auto
  from Cons.prems(2) iin have nm: "\<not> miss env now_p d ids i" by simp
  show ?case
  proof (cases "k = 0")
    case True
    with Cons.prems(1) obtain out1 where
      "optimistic env now_o d null arr (Suc i) ks out1 = Inr (out', False)"
      by (auto simp: bindE_eq_Inr)
    from Cons.IH [OF this later p2, of m "n + 1"] True show ?thesis by simp
  next
    case False
    with Cons.prems(1) obtain cell where
      c: "cell_at (cells d) (unat (getCellIdx env d k)) = Inr cell" and
      r: "(if cell_id cell \<noteq> k \<or> hasTimeExpired (now_o i) (expires_at cell) then Inr (out, True)
         else
           bindE (load arr (unat (getCellIdx env d k))) (\<lambda>string_ref.
             bindE (insertData (ref_data string_ref) (ref_size string_ref) out)
               (\<lambda>out'. optimistic env now_o d null arr (Suc i) ks out'))) = Inr (out', False)"
      by (auto simp: bindE_eq_Inr)
    from c have ce: "cell = cells d ! unat (getCellIdx env d k)" by (simp add: cell_at_Inr)
    from r have "\<not> (cell_id cell \<noteq> k \<or> hasTimeExpired (now_o i) (expires_at cell))"
      by (auto split: if_splits)
    with r obtain sr out1 where l: "load arr (unat (getCellIdx env d k)) = Inr sr"
      and ins: "insertData (ref_data sr) (ref_size sr) out = Inr out1"
      and o1: "optimistic env now_o d null arr (Suc i) ks out1 = Inr (out', False)"
      by (auto simp: bindE_eq_Inr)
    from insertData_Inr_ref [OF ins] obtain s where s: "to_String sr = Inr s" by blast
    from nm False k ce have hit: "\<not> (cell_id cell \<noteq> k \<or> hasTimeExpired (now_p i) (expires_at cell))"
      by (simp add: miss_def outdated_def)
    from Cons.IH [OF o1 later p2, of "m(k \<mapsto> s)" "n + ref_size sr + 1"]
    obtain m' n' where sc: "scan env now_p d arr (Suc i) ks od (m(k \<mapsto> s)) (n + ref_size sr + 1)
        = Inr (od, m', n')" by blast
    have "scan env now_p d arr i (k # ks) od m n
        = scan env now_p d arr (Suc i) ks od (m(k \<mapsto> s)) (n + ref_size sr + 1)"
      using False c hit l s by simp
    with sc show ?thesis by simp
  qed
qed

lemma getItems_String_completed:
  assumes "idx < length (attributes d)"
    and "optimistic env now_o d (get_String (null_values (attributes d ! idx)))
           (ptr_StringRef (arrays (attributes d ! idx))) 0 ids out = Inr (out', False)"
  shows "getItems_String env now_o now_p now_u d idx ids out = (d, Inr out')"
  using assms by (simp add: getItems_String_def)

lemma pessimistic_of_optimistic:
  assumes opt: "optimistic env now_o d (get_String (null_values (attributes d ! idx)))
           (ptr_StringRef (arrays (attributes d ! idx))) 0 ids out = Inr (out', False)"
    and hit: "\<forall>j < length ids. \<not> miss env now_p d ids j"
  shows "\<exists>ss. out' = insert_rows ss out \<and>
           pessimistic env now_p now_u d idx ids partial = (d, Inr (insert_rows ss empty_column))"
proof -
  let ?null = "get_String (null_values (attributes d ! idx))"
  let ?arr = "ptr_StringRef (arrays (attributes d ! idx))"
  from optimistic_completed [OF opt, of ids "[]"] obtain ss where
    ss: "length ss = length ids" "out' = insert_rows ss out"
      "\<forall>j < length ids. if ids ! j = 0 then ss ! j = ?null
                              else resident env d ?arr (ids ! j) = Inr (ss ! j)"
    by auto
  from hit have hit': "\<forall>j. 0 \<le> j \<and> j < length ids \<longrightarrow> \<not> miss env now_p d ids j" by simp
  from scan_of_optimistic [OF opt hit', of "[]" "[]" Map.empty 0]
  obtain m0 n0 where sc: "scan env now_p d ?arr 0 ids [] Map.empty 0 = Inr ([], m0, n0)" by auto
  note S = scan_Inr [OF sc, of ids "[]", simplified]
  have "map (\<lambda>k. case m0 k of Some s \<Rightarrow> s | None \<Rightarrow> ?null) ids = ss"
  proof (rule nth_equalityI)
    show "length (map (\<lambda>k. case m0 k of Some s \<Rightarrow> s | None \<Rightarrow> ?null) ids) = length ss"
      using ss(1) by simp
  next
    fix j assume "j < length (map (\<lambda>k. case m0 k of Some s \<Rightarrow> s | None \<Rightarrow> ?null) ids)"
    then have j: "j < length ids" by simp
    show "map (\<lambda>k. case m0 k of Some s \<Rightarrow> s | None \<Rightarrow> ?null) ids ! j = ss ! j"
    proof (cases "ids ! j = 0")
      case True
      with S have "m0 (ids ! j) = None" by auto
      with True ss(3) j show ?thesis by simp
    next
      case False
      with S hit j obtain s where "resident env d ?arr (ids ! j) = Inr s" "m0 (ids ! j) = Some s"
        by blast
      with False ss(3) j show ?thesis by auto
    qed
  qed
  with sc have "pessimistic env now_p now_u d idx ids partial = (d, Inr (insert_rows ss empty_column))"
    by (simp add: pessimistic_def column_reset emit_eq)
  with ss(2) show ?thesis by blast
qed

subsection \<open>The two passes of the string lookup agree\<close>

text \<open>
  The rows of the two passes. Let the optimistic pass of \<^verbatim>\<open>getItems\<close> for strings
  complete on a batch (so the lookup returns its output, with the state unchanged), and let no
  position of the batch be outdated for the clock readings of a second pass either. Then the
  pessimistic path, run on the same state and batch, returns with the same state and emits
  the same rows. With a column that is empty at entry the two outputs are identical.
\<close>

theorem two_phase_same_rows:
  assumes "idx < length (attributes d)"
    and "optimistic env now_o d (get_String (null_values (attributes d ! idx)))
           (ptr_StringRef (arrays (attributes d ! idx))) 0 ids out = Inr (out', False)"
    and "\<forall>j < length ids. \<not> miss env now_p d ids j"
  shows "(\<exists>ss. getItems_String env now_o now_p now_u d idx ids out = (d, Inr (insert_rows ss out)) \<and>
            pessimistic env now_p now_u d idx ids partial = (d, Inr (insert_rows ss empty_column))) \<and>
         (out = empty_column \<longrightarrow>
            pessimistic env now_p now_u d idx ids partial
              = getItems_String env now_o now_p now_u d idx ids out)"
proof -
  from pessimistic_of_optimistic [OF assms(2,3)] obtain ss where
    ss: "out' = insert_rows ss out"
    "pessimistic env now_p now_u d idx ids partial = (d, Inr (insert_rows ss empty_column))"
    by blast
  from getItems_String_completed [OF assms(1,2)]
  have g: "getItems_String env now_o now_p now_u d idx ids out = (d, Inr out')" .
  from ss g show ?thesis by auto
qed

theorem two_phase_same_rows_witness:
  "1 < length (attributes cache1) \<and>
   optimistic (env0 []) clock0 cache1 (get_String (null_values (attributes cache1 ! 1)))
     (ptr_StringRef (arrays (attributes cache1 ! 1))) 0 [1, 0, 1] empty_column
     = Inr (\<lparr>chars = [97, 0, 110, 0, 97, 0], offsets = [2, 4, 6]\<rparr>, False) \<and>
   \<not> miss (env0 []) clock0 cache1 [1, 0, 1] 0 \<and>
   \<not> miss (env0 []) clock0 cache1 [1, 0, 1] 1 \<and>
   \<not> miss (env0 []) clock0 cache1 [1, 0, 1] 2 \<and>
   pessimistic (env0 []) clock0 clock0u cache1 1 [1, 0, 1] empty_column
     = getItems_String (env0 []) clock0 clock0 clock0u cache1 1 [1, 0, 1] empty_column \<and>
   getItems_String (env0 []) clock0 clock0 clock0u cache1 1 [1, 0, 1] empty_column
     = (cache1, Inr \<lparr>chars = [97, 0, 110, 0, 97, 0], offsets = [2, 4, 6]\<rparr>)"
proof -
  have h1: "1 < length (attributes cache1)" by (simp add: cache1_def)
  have h2: "optimistic (env0 []) clock0 cache1 (get_String (null_values (attributes cache1 ! 1)))
     (ptr_StringRef (arrays (attributes cache1 ! 1))) 0 [1, 0, 1] empty_column
     = Inr (\<lparr>chars = [97, 0, 110, 0, 97, 0], offsets = [2, 4, 6]\<rparr>, False)"
    by (simp add: eval_simps empty_column_def)
  have h3: "\<forall>j < length [1, 0, 1 :: id_t]. \<not> miss (env0 []) clock0 cache1 [1, 0, 1] j"
    by (simp add: miss_def outdated_def eval_simps All_less_Suc numeral_3_eq_3)
  have h4: "getItems_String (env0 []) clock0 clock0 clock0u cache1 1 [1, 0, 1] empty_column
     = (cache1, Inr \<lparr>chars = [97, 0, 110, 0, 97, 0], offsets = [2, 4, 6]\<rparr>)"
    using h1 h2 by (simp add: getItems_String_def)
  have h5: "\<not> miss (env0 []) clock0 cache1 [1, 0, 1] 0 \<and>
     \<not> miss (env0 []) clock0 cache1 [1, 0, 1] 1 \<and> \<not> miss (env0 []) clock0 cache1 [1, 0, 1] 2"
    by (simp add: miss_def outdated_def eval_simps)
  from two_phase_same_rows [OF h1 h2 h3, where now_u = clock0u and partial = empty_column] h1 h2 h4 h5
  show ?thesis by simp
qed

text \<open>
  C1 at a failing input. The column holds the row \<open>''q''\<close> at entry and key 1 is
  requested. On \<open>cache1\<close>, where key 1 is resident, the optimistic pass completes and the
  lookup returns the rows \<open>''q'', ''a''\<close>. On \<open>cache0\<close>, where key 1 is not resident
  and the source delivers it, the optimistic pass aborts, the column is truncated to size 0
  and the pessimistic pass returns the row \<open>''a''\<close> alone: the row held at entry is
  dropped with the partial results. The pessimistic path run on the all-hit state
  \<open>cache1\<close> returns \<open>''a''\<close> alone as well, so on the same state and batch the two
  paths give different columns.
\<close>

theorem getItems_String_drops_rows_held_at_entry:
  "getItems_String (env0 []) clock0 clock0 clock0u cache1 1 [1] q_column
     = (cache1, Inr \<lparr>chars = [113, 0, 97, 0], offsets = [2, 4]\<rparr>) \<and>
   rows \<lparr>chars = [113, 0, 97, 0], offsets = [2, 4]\<rparr> = [[113], [97]] \<and>
   getItems_String (env0 [row_block 1 7 [97]]) clock0 clock0 clock0u cache0 1 [1] q_column
     = (cache1, Inr \<lparr>chars = [97, 0], offsets = [2]\<rparr>) \<and>
   rows \<lparr>chars = [97, 0], offsets = [2]\<rparr> = [[97]] \<and>
   pessimistic (env0 []) clock0 clock0u cache1 1 [1] q_column
     = (cache1, Inr \<lparr>chars = [97, 0], offsets = [2]\<rparr>)"
  by (simp add: eval_simps q_column_def rows_def)

subsection \<open>Every position gets the value of its key\<close>

lemma getItems_String_rows:
  assumes g: "getItems_String env now_o now_p now_u d idx ids out = (d', Inr out')"
  shows "(d' = d \<and> (\<forall>j < length ids. \<not> miss env now_o d ids j) \<and>
          (\<exists>ss. out' = insert_rows ss out \<and>
             rows_for env now_o d (get_String (null_values (attributes d ! idx)))
               (ptr_StringRef (arrays (attributes d ! idx))) Map.empty ids ss)) \<or>
         (\<exists>m ss. string_refresh_of env now_p now_u idx d ids d' m \<and>
             out' = insert_rows ss empty_column \<and>
             rows_for env now_p d (get_String (null_values (attributes d ! idx)))
               (ptr_StringRef (arrays (attributes d ! idx))) m ids ss \<and>
             (\<forall>i < length ids. \<forall>x. m (ids ! i) = Some x \<longrightarrow> ss ! i = x))"
proof -
  let ?null = "get_String (null_values (attributes d ! idx))"
  let ?arr = "ptr_StringRef (arrays (attributes d ! idx))"
  from g have idx: "idx < length (attributes d)"
    by (auto simp: getItems_String_def split: if_splits)
  with g obtain out1 flag where
    opt: "optimistic env now_o d ?null ?arr 0 ids out = Inr (out1, flag)" and
    rest: "(if \<not> flag then (d, Inr out1) else pessimistic env now_p now_u d idx ids out1) = (d', Inr out')"
    by (cases "optimistic env now_o d ?null ?arr 0 ids out")
       (auto simp: getItems_String_def Let_def)
  show ?thesis
  proof (cases flag)
    case False
    with rest have d: "d' = d" and o: "out1 = out'" by simp_all
    from opt False have opt': "optimistic env now_o d ?null ?arr 0 ids out = Inr (out1, False)"
      by simp
    from optimistic_completed [OF opt', of ids "[]"] obtain ss where
      nm: "\<forall>j < length ids. \<not> miss env now_o d ids j" and
      ss: "length ss = length ids" "out1 = insert_rows ss out"
        "\<forall>j < length ids. if ids ! j = 0 then ss ! j = ?null
                              else resident env d ?arr (ids ! j) = Inr (ss ! j)"
      by auto
    have "rows_for env now_o d ?null ?arr Map.empty ids ss"
      unfolding rows_for_def
    proof (intro conjI allI impI)
      show "length ss = length ids" by (rule ss(1))
    next
      fix i assume i: "i < length ids"
      with nm have "\<not> (\<forall>j < length ids. ids ! j = ids ! i \<longrightarrow> miss env now_o d ids j)" by auto
      with ss(3) i show "row_for env d ?null ?arr Map.empty (ids ! i)
          (\<forall>j < length ids. ids ! j = ids ! i \<longrightarrow> miss env now_o d ids j) (ss ! i)"
        by (auto simp: row_for_def)
    next
      fix i j assume "i < length ids" "j < length ids" "ids ! i = ids ! j"
      with ss(3) show "ss ! i = ss ! j" by (cases "ids ! i = 0") (auto, metis sum.inject(2))
    qed
    with d o nm ss(2) show ?thesis by blast
  next
    case True
    with rest have "pessimistic env now_p now_u d idx ids out1 = (d', Inr out')" by simp
    from pessimistic_rows [OF this idx] show ?thesis by blast
  qed
qed

lemma value_for_duplicates:
  assumes "value_for env now d null arr m ids i v" "value_for env now d null arr m ids j w"
    and "ids ! i = ids ! j" and "miss env now d ids i \<longleftrightarrow> miss env now d ids j"
  shows "v = w"
  using assms by (auto simp: value_for_def split: if_splits)


text \<open>
  C8 (amended). For a batched getter call that returns:

  \<^item> scalar getters: the output at index \<open>i\<close> is the value for \<open>ids ! i\<close>: the null value
    for key 0, the resident value for a hit, and for a position that is not a hit the value
    the refresh delivered for its key, or else the null value; two positions of the same key
    that the read pass classifies alike receive the same value;

  \<^item> the string getter: it emits one row per position, in request order, appended to the
    column (optimistic pass completed) or to the emptied column (pessimistic pass); the row
    of a non-zero key is the string the refresh delivered for it, or else the resident
    string for a hit and the null value for an outdated key; the row of key 0 is the null
    value when the refresh delivered nothing for key 0; all positions of a key receive the
    same row.
\<close>

theorem lookups_keep_request_order:
  "(getItems env now_r now_u get ptr d idx ids out = (d', Inr out') \<longrightarrow>
      (\<exists>m. refresh_of env now_r now_u ptr idx d ids d' m \<and>
         (\<forall>i < length ids. value_for env now_r d (get (null_values (attributes d ! idx)))
              (ptr (arrays (attributes d ! idx))) m ids i (out' ! i)) \<and>
         (\<forall>i < length ids. \<forall>j < length ids.
              ids ! i = ids ! j \<and> (miss env now_r d ids i \<longleftrightarrow> miss env now_r d ids j)
              \<longrightarrow> out' ! i = out' ! j))) \<and>
   (getItems_String env now_o now_p now_u ds idx_s ids col = (ds', Inr col') \<longrightarrow>
      (ds' = ds \<and> (\<forall>j < length ids. \<not> miss env now_o ds ids j) \<and>
          (\<exists>ss. col' = insert_rows ss col \<and>
             rows_for env now_o ds (get_String (null_values (attributes ds ! idx_s)))
               (ptr_StringRef (arrays (attributes ds ! idx_s))) Map.empty ids ss)) \<or>
      (\<exists>m ss. string_refresh_of env now_p now_u idx_s ds ids ds' m \<and>
             col' = insert_rows ss empty_column \<and>
             rows_for env now_p ds (get_String (null_values (attributes ds ! idx_s)))
               (ptr_StringRef (arrays (attributes ds ! idx_s))) m ids ss))"
proof (intro conjI impI)
  assume g: "getItems env now_r now_u get ptr d idx ids out = (d', Inr out')"
  from getItems_values [OF g] obtain m where
    r: "refresh_of env now_r now_u ptr idx d ids d' m" and
    v: "\<forall>i < length ids. value_for env now_r d (get (null_values (attributes d ! idx)))
              (ptr (arrays (attributes d ! idx))) m ids i (out' ! i)"
    by blast
  have "\<forall>i < length ids. \<forall>j < length ids.
              ids ! i = ids ! j \<and> (miss env now_r d ids i \<longleftrightarrow> miss env now_r d ids j)
              \<longrightarrow> out' ! i = out' ! j"
    using v by (blast intro: value_for_duplicates)
  with r v show "\<exists>m. refresh_of env now_r now_u ptr idx d ids d' m \<and>
         (\<forall>i < length ids. value_for env now_r d (get (null_values (attributes d ! idx)))
              (ptr (arrays (attributes d ! idx))) m ids i (out' ! i)) \<and>
         (\<forall>i < length ids. \<forall>j < length ids.
              ids ! i = ids ! j \<and> (miss env now_r d ids i \<longleftrightarrow> miss env now_r d ids j)
              \<longrightarrow> out' ! i = out' ! j)" by blast
next
  assume "getItems_String env now_o now_p now_u ds idx_s ids col = (ds', Inr col')"
  then show "(ds' = ds \<and> (\<forall>j < length ids. \<not> miss env now_o ds ids j) \<and>
          (\<exists>ss. col' = insert_rows ss col \<and>
             rows_for env now_o ds (get_String (null_values (attributes ds ! idx_s)))
               (ptr_StringRef (arrays (attributes ds ! idx_s))) Map.empty ids ss)) \<or>
      (\<exists>m ss. string_refresh_of env now_p now_u idx_s ds ids ds' m \<and>
             col' = insert_rows ss empty_column \<and>
             rows_for env now_p ds (get_String (null_values (attributes ds ! idx_s)))
               (ptr_StringRef (arrays (attributes ds ! idx_s))) m ids ss)"
    by (rule getItems_String_rows [THEN disjE]) blast+
qed

theorem lookups_keep_request_order_witness:
  "getItems (env0 [row_block 1 7 [97]]) clock0 clock0u get_UInt32 ptr_UInt32
      cache0 0 [1, 0, 1] [5, 5, 5] = (cache1, Inr [7, 0, 7]) \<and>
   getItems_String (env0 [row_block 1 7 [97]]) clock0 clock0 clock0u cache0 1
      [1, 0, 1] empty_column
      = (cache1, Inr \<lparr>chars = [97, 0, 110, 0, 97, 0], offsets = [2, 4, 6]\<rparr>) \<and>
   (\<exists>m. refresh_of (env0 [row_block 1 7 [97]]) clock0 clock0u ptr_UInt32 0 cache0 [1, 0, 1] cache1 m \<and>
      value_for (env0 [row_block 1 7 [97]]) clock0 cache0 (get_UInt32 (null_values (attributes cache0 ! 0)))
        (ptr_UInt32 (arrays (attributes cache0 ! 0))) m [1, 0, 1] 0 7 \<and>
      value_for (env0 [row_block 1 7 [97]]) clock0 cache0 (get_UInt32 (null_values (attributes cache0 ! 0)))
        (ptr_UInt32 (arrays (attributes cache0 ! 0))) m [1, 0, 1] 1 0 \<and>
      value_for (env0 [row_block 1 7 [97]]) clock0 cache0 (get_UInt32 (null_values (attributes cache0 ! 0)))
        (ptr_UInt32 (arrays (attributes cache0 ! 0))) m [1, 0, 1] 2 7) \<and>
   (\<exists>m ss. string_refresh_of (env0 [row_block 1 7 [97]]) clock0 clock0u 1 cache0 [1, 0, 1] cache1 m \<and>
      \<lparr>chars = [97, 0, 110, 0, 97, 0], offsets = [2, 4, 6]\<rparr> = insert_rows ss empty_column \<and>
      rows_for (env0 [row_block 1 7 [97]]) clock0 cache0
        (get_String (null_values (attributes cache0 ! 1)))
        (ptr_StringRef (arrays (attributes cache0 ! 1))) m [1, 0, 1] ss)"
proof -
  let ?env = "env0 [row_block 1 7 [97]]"
  let ?col = "\<lparr>chars = [97, 0, 110, 0, 97, 0], offsets = [2, 4, 6]\<rparr>"
  have h1: "getItems ?env clock0 clock0u get_UInt32 ptr_UInt32
      cache0 0 [1, 0, 1] [5, 5, 5] = (cache1, Inr [7, 0, 7])"
    by (simp add: eval_simps)
  have h2: "getItems_String ?env clock0 clock0 clock0u cache0 1 [1, 0, 1] empty_column
      = (cache1, Inr ?col)"
    by (simp add: eval_simps empty_column_def)
  note T = lookups_keep_request_order [where env = ?env and now_r = clock0 and now_u = clock0u
      and get = get_UInt32 and ptr = ptr_UInt32 and d = cache0 and idx = 0 and ids = "[1, 0, 1]"
      and out = "[5, 5, 5]" and d' = cache1 and out' = "[7, 0, 7]" and now_o = clock0
      and now_p = clock0 and ds = cache0 and idx_s = 1 and col = empty_column and ds' = cache1
      and col' = ?col]
  from T h1 obtain m where
    r: "refresh_of ?env clock0 clock0u ptr_UInt32 0 cache0 [1, 0, 1] cache1 m" and
    v: "\<forall>i < length [1, 0, 1 :: id_t]. value_for ?env clock0 cache0
          (get_UInt32 (null_values (attributes cache0 ! 0)))
          (ptr_UInt32 (arrays (attributes cache0 ! 0))) m [1, 0, 1] i ([7, 0, 7] ! i)"
    by blast
  from v [rule_format, of 0] v [rule_format, of 1] v [rule_format, of 2]
  have v3: "value_for ?env clock0 cache0 (get_UInt32 (null_values (attributes cache0 ! 0)))
        (ptr_UInt32 (arrays (attributes cache0 ! 0))) m [1, 0, 1] 0 7"
      "value_for ?env clock0 cache0 (get_UInt32 (null_values (attributes cache0 ! 0)))
        (ptr_UInt32 (arrays (attributes cache0 ! 0))) m [1, 0, 1] 1 0"
      "value_for ?env clock0 cache0 (get_UInt32 (null_values (attributes cache0 ! 0)))
        (ptr_UInt32 (arrays (attributes cache0 ! 0))) m [1, 0, 1] 2 7"
    by simp_all
  have "cache1 \<noteq> cache0" by (simp add: cache0_def cache1_def)
  with T h2 have s: "\<exists>m ss. string_refresh_of ?env clock0 clock0u 1 cache0 [1, 0, 1] cache1 m \<and>
      ?col = insert_rows ss empty_column \<and>
      rows_for ?env clock0 cache0 (get_String (null_values (attributes cache0 ! 1)))
        (ptr_StringRef (arrays (attributes cache0 ! 1))) m [1, 0, 1] ss"
    by blast
  from h1 h2 r v3 s show ?thesis by blast
qed

text \<open>
  C8 as stated fails for a duplicated key in a scalar batch when the clock reaches the
  cell's expiry between the two positions: key 1 is resident with \<open>x = 7\<close>, position 0
  reads the clock before the expiry and is a hit, position 1 reads it at the expiry and is
  refreshed; the source delivers \<open>x = 9\<close>. The two positions of key 1 receive 7 and 9.
\<close>

theorem scalar_duplicates_across_expiry:
  "snd (getUInt32 (env0 [row_block 1 9 [98]]) clock_late clock0u cache1 ''x'' [1, 1] [0, 0])
     = Inr [7, 9]"
  by (simp add: eval_simps getUInt32_def clock_late_def)

subsection \<open>A key evicted by a colliding key\<close>

text \<open>
  A successful \<open>update_row\<close> leaves its key in the slot it returns and does not change
  the slot of any key; a key whose slot holds another key is outdated at every instant.
\<close>

lemma update_row_cell:
  assumes "update_row env t block r k d = (d', Inr c)"
  shows "c = unat (getCellIdx env d k) \<and> c < length (cells d') \<and> cell_id (cells d' ! c) = k \<and>
         (\<forall>k'. getCellIdx env d' k' = getCellIdx env d k')"
  using update_row_Inr [OF assms] by (simp add: getCellIdx_def)

lemma outdated_other_key:
  "cell_id (cells d ! unat (getCellIdx env d k)) \<noteq> k \<Longrightarrow> outdated env d now k"
  by (simp add: outdated_def)

lemma scalar_miss_value:
  assumes g: "getItems env now_r now_u get ptr d idx ids out = (d', Inr out')"
    and i: "i < length ids" and m: "miss env now_r d ids i"
  shows "\<exists>m req. ids ! i \<in> set req \<and>
           update env now_u d req (record_value ptr idx) Map.empty = (d', Inr m) \<and>
           out' ! i = (case m (ids ! i) of Some v \<Rightarrow> v
                       | None \<Rightarrow> get (null_values (attributes d ! idx)))"
proof -
  from getItems_values [OF g] obtain mr where
    r: "refresh_of env now_r now_u ptr idx d ids d' mr" and
    v: "\<forall>i < length ids. value_for env now_r d (get (null_values (attributes d ! idx)))
              (ptr (arrays (attributes d ! idx))) mr ids i (out' ! i)"
    by blast
  from i m have ex: "\<exists>j < length ids. miss env now_r d ids j" by blast
  with r have "\<exists>req. set req = {ids ! j |j. j < length ids \<and> miss env now_r d ids j} \<and>
             distinct req \<and>
             update env now_u d req (record_value ptr idx) Map.empty = (d', Inr mr)"
    by (simp add: refresh_of_def)
  then obtain req where
    req: "set req = {ids ! j |j. j < length ids \<and> miss env now_r d ids j}"
    "update env now_u d req (record_value ptr idx) Map.empty = (d', Inr mr)"
    by (elim exE conjE)
  from req(1) i m have "ids ! i \<in> set req" by auto
  moreover from v i m have "out' ! i = (case mr (ids ! i) of Some v \<Rightarrow> v
                       | None \<Rightarrow> get (null_values (attributes d ! idx)))"
    by (auto simp: value_for_def miss_def)
  ultimately show ?thesis using req(2) by blast
qed

lemma rows_for_row:
  "rows_for env now d null arr m ids ss \<Longrightarrow> i < length ids \<Longrightarrow>
     row_for env d null arr m (ids ! i)
       (\<forall>j < length ids. ids ! j = ids ! i \<longrightarrow> miss env now d ids j) (ss ! i)"
  unfolding rows_for_def by blast

lemma rows_for_length: "rows_for env now d null arr m ids ss \<Longrightarrow> length ss = length ids"
  unfolding rows_for_def by blast

lemma string_miss_row:
  assumes g: "getItems_String env now_o now_p now_u d idx ids col = (d', Inr col')"
    and i: "i < length ids" and k: "ids ! i \<noteq> 0"
    and m: "\<forall>now. outdated env d now (ids ! i)"
  shows "\<exists>m req n ss. ids ! i \<in> set req \<and>
           update env now_u d req (on_cell_updated_string idx) (Map.empty, 0) = (d', Inr (m, n)) \<and>
           col' = insert_rows ss empty_column \<and> length ss = length ids \<and>
           ss ! i = (case m (ids ! i) of Some s \<Rightarrow> s
                     | None \<Rightarrow> get_String (null_values (attributes d ! idx)))"
proof -
  let ?null = "get_String (null_values (attributes d ! idx))"
  let ?arr = "ptr_StringRef (arrays (attributes d ! idx))"
  have mo: "miss env now_o d ids i" using k m by (simp add: miss_def)
  have allm: "\<forall>j < length ids. ids ! j = ids ! i \<longrightarrow> miss env now_p d ids j"
    using k m by (simp add: miss_def)
  have mi: "miss env now_p d ids i" using k m by (simp add: miss_def)
  from mo i have "\<not> (\<forall>j < length ids. \<not> miss env now_o d ids j)" by blast
  with getItems_String_rows [OF g]
  have "\<exists>m ss. string_refresh_of env now_p now_u idx d ids d' m \<and>
             col' = insert_rows ss empty_column \<and>
             rows_for env now_p d ?null ?arr m ids ss \<and>
             (\<forall>i < length ids. \<forall>x. m (ids ! i) = Some x \<longrightarrow> ss ! i = x)"
    by (elim disjE) simp_all
  then obtain mr ss where
    r: "string_refresh_of env now_p now_u idx d ids d' mr" and
    c: "col' = insert_rows ss empty_column" and
    rows: "rows_for env now_p d ?null ?arr mr ids ss"
    by (elim exE conjE)
  from i mi have ex: "\<exists>j < length ids. miss env now_p d ids j" by blast
  with r have "\<exists>req n. set req = {ids ! j |j. j < length ids \<and> miss env now_p d ids j} \<and>
             distinct req \<and>
             update env now_u d req (on_cell_updated_string idx) (Map.empty, 0) = (d', Inr (mr, n))"
    by (simp add: string_refresh_of_def)
  then obtain req n where
    req: "set req = {ids ! j |j. j < length ids \<and> miss env now_p d ids j}"
    "update env now_u d req (on_cell_updated_string idx) (Map.empty, 0) = (d', Inr (mr, n))"
    by (elim exE conjE)
  have in_req: "ids ! i \<in> set req" unfolding req(1) using i mi by blast
  from rows have len: "length ss = length ids" by (rule rows_for_length)
  from rows i have "row_for env d ?null ?arr mr (ids ! i)
          (\<forall>j < length ids. ids ! j = ids ! i \<longrightarrow> miss env now_p d ids j) (ss ! i)"
    by (rule rows_for_row)
  with allm have "row_for env d ?null ?arr mr (ids ! i) True (ss ! i)" by simp
  with k have row: "ss ! i = (case mr (ids ! i) of Some s \<Rightarrow> s | None \<Rightarrow> ?null)"
    by (simp add: row_for_def split: option.splits)
  show ?thesis
    by (rule exI [of _ mr], rule exI [of _ req], rule exI [of _ n], rule exI [of _ ss])
       (simp only: in_req req(2) c len row simp_thms)
qed

lemma hit_slot_holds_key:
  assumes "k \<noteq> 0" "\<not> miss env now d ids j" "ids ! j = k"
  shows "cell_id (cells d ! unat (getCellIdx env d k)) = k"
  using assms by (auto simp: miss_def outdated_def)

lemma row_for_cases:
  assumes "row_for env d null arr m k b s" "\<forall>x. m k = Some x \<longrightarrow> s = x"
  shows "s = null \<or> m k = Some s \<or> (k \<noteq> 0 \<and> \<not> b \<and> resident env d arr k = Inr s)"
  using assms by (auto simp: row_for_def split: if_splits option.splits)

text \<open>
  C3, with the value of the read amended. Let \<open>k1\<close> be a non-zero key and \<open>k2\<close> a
  different key of the same slot, and let the refresh install a row of \<open>k2\<close>
  (\<open>update_row\<close> returns, with the state \<open>dd\<close>). Then in \<open>dd\<close> the key \<open>k1\<close> is
  outdated whatever the clock reads, and a later lookup that returns and has \<open>k1\<close> at a
  position of its batch, scalar or string, performs a refresh whose request holds \<open>k1\<close>.
  The value at that position is the one this refresh delivers for \<open>k1\<close>; it is the null
  value when the source delivers no row for \<open>k1\<close>. The premise that \<open>k1\<close> was resident
  before is not needed.
\<close>

theorem collision_evicts_resident_key:
  assumes k1: "k1 \<noteq> 0" and ne: "k1 \<noteq> k2"
    and slot: "getCellIdx env d k1 = getCellIdx env d k2"
    and inst: "update_row env t block r k2 d = (dd, Inr c)"
  shows "(\<forall>now. outdated env dd now k1) \<and>
    (getItems env now_r now_u get ptr dd idx ids out = (d', Inr out') \<and>
       i < length ids \<and> ids ! i = k1 \<longrightarrow>
       (\<exists>m req. k1 \<in> set req \<and>
          update env now_u dd req (record_value ptr idx) Map.empty = (d', Inr m) \<and>
          out' ! i = (case m k1 of Some v \<Rightarrow> v
                      | None \<Rightarrow> get (null_values (attributes dd ! idx))))) \<and>
    (getItems_String env now_o now_p now_v dd idx_s ids_s col = (d'', Inr col') \<and>
       j < length ids_s \<and> ids_s ! j = k1 \<longrightarrow>
       (\<exists>m req n ss. k1 \<in> set req \<and>
          update env now_v dd req (on_cell_updated_string idx_s) (Map.empty, 0)
            = (d'', Inr (m, n)) \<and>
          col' = insert_rows ss empty_column \<and> length ss = length ids_s \<and>
          ss ! j = (case m k1 of Some s \<Rightarrow> s
                    | None \<Rightarrow> get_String (null_values (attributes dd ! idx_s)))))"
proof -
  from update_row_cell [OF inst] have
    c: "c = unat (getCellIdx env d k2)" and id: "cell_id (cells dd ! c) = k2" and
    same: "\<forall>k'. getCellIdx env dd k' = getCellIdx env d k'"
    by blast+
  have "cell_id (cells dd ! unat (getCellIdx env dd k1)) = k2"
    using c id same slot by simp
  with ne have other: "cell_id (cells dd ! unat (getCellIdx env dd k1)) \<noteq> k1" by simp
  have out_of_date: "\<forall>now. outdated env dd now k1"
    using outdated_other_key [OF other] by simp
  have scalar: "\<exists>m req. k1 \<in> set req \<and>
          update env now_u dd req (record_value ptr idx) Map.empty = (d', Inr m) \<and>
          out' ! i = (case m k1 of Some v \<Rightarrow> v
                      | None \<Rightarrow> get (null_values (attributes dd ! idx)))"
    if g: "getItems env now_r now_u get ptr dd idx ids out = (d', Inr out')"
      and i: "i < length ids" and e: "ids ! i = k1"
  proof -
    have "miss env now_r dd ids i" using k1 e out_of_date by (simp add: miss_def)
    from scalar_miss_value [OF g i this] e show ?thesis by simp
  qed
  have str: "\<exists>m req n ss. k1 \<in> set req \<and>
          update env now_v dd req (on_cell_updated_string idx_s) (Map.empty, 0)
            = (d'', Inr (m, n)) \<and>
          col' = insert_rows ss empty_column \<and> length ss = length ids_s \<and>
          ss ! j = (case m k1 of Some s \<Rightarrow> s
                    | None \<Rightarrow> get_String (null_values (attributes dd ! idx_s)))"
    if g: "getItems_String env now_o now_p now_v dd idx_s ids_s col = (d'', Inr col')"
      and j: "j < length ids_s" and e: "ids_s ! j = k1"
  proof -
    have nz: "ids_s ! j \<noteq> 0" using k1 e by simp
    have od: "\<forall>now. outdated env dd now (ids_s ! j)" using out_of_date e by simp
    from string_miss_row [OF g j nz od] e show ?thesis by simp
  qed
  from out_of_date scalar str show ?thesis by blast
qed

theorem collision_evicts_resident_key_witness:
  "(1 :: id_t) \<noteq> 0 \<and> (1 :: id_t) \<noteq> 5 \<and>
   getCellIdx (env0 [row_block 1 7 [97]]) cache1 1 = getCellIdx (env0 [row_block 1 7 [97]]) cache1 5 \<and>
   update_row (env0 [row_block 1 7 [97]]) 100 (row_block 5 9 [98]) 0 5 cache1 = (cache5, Inr 1) \<and>
   getItems (env0 [row_block 1 7 [97]]) clock0 clock0u get_UInt32 ptr_UInt32 cache5 0 [1] [0]
     = (cache1\<lparr>rnd_engine := 3\<rparr>, Inr [7]) \<and>
   getItems_String (env0 [row_block 1 7 [97]]) clock0 clock0 clock0u cache5 1 [1] empty_column
     = (cache1\<lparr>rnd_engine := 3\<rparr>, Inr \<lparr>chars = [97, 0], offsets = [2]\<rparr>) \<and>
   (\<forall>now. outdated (env0 [row_block 1 7 [97]]) cache5 now 1) \<and>
   (\<exists>m req. 1 \<in> set req \<and>
      update (env0 [row_block 1 7 [97]]) clock0u cache5 req (record_value ptr_UInt32 0) Map.empty
        = (cache1\<lparr>rnd_engine := 3\<rparr>, Inr m) \<and>
      [7] ! 0 = (case m 1 of Some v \<Rightarrow> v
                 | None \<Rightarrow> get_UInt32 (null_values (attributes cache5 ! 0)))) \<and>
   (\<exists>m req n ss. 1 \<in> set req \<and>
      update (env0 [row_block 1 7 [97]]) clock0u cache5 req (on_cell_updated_string 1) (Map.empty, 0)
        = (cache1\<lparr>rnd_engine := 3\<rparr>, Inr (m, n)) \<and>
      \<lparr>chars = [97, 0], offsets = [2]\<rparr> = insert_rows ss empty_column \<and> length ss = length [1 :: id_t] \<and>
      ss ! 0 = (case m 1 of Some s \<Rightarrow> s
                | None \<Rightarrow> get_String (null_values (attributes cache5 ! 1))))"
proof -
  let ?env = "env0 [row_block 1 7 [97]]"
  have h1: "(1 :: id_t) \<noteq> 0" and h2: "(1 :: id_t) \<noteq> 5" by simp_all
  have h3: "getCellIdx ?env cache1 1 = getCellIdx ?env cache1 5"
    by (simp add: eval_simps)
  have h4: "update_row ?env 100 (row_block 5 9 [98]) 0 5 cache1 = (cache5, Inr 1)"
    by (simp add: eval_simps cache5_def)
  have g: "getItems ?env clock0 clock0u get_UInt32 ptr_UInt32 cache5 0 [1] [0]
     = (cache1\<lparr>rnd_engine := 3\<rparr>, Inr [7])"
    by (simp add: eval_simps cache5_def)
  have s: "getItems_String ?env clock0 clock0 clock0u cache5 1 [1] empty_column
     = (cache1\<lparr>rnd_engine := 3\<rparr>, Inr \<lparr>chars = [97, 0], offsets = [2]\<rparr>)"
    by (simp add: eval_simps cache5_def empty_column_def)
  note T = collision_evicts_resident_key [OF h1 h2 h3 h4,
    where now_r = clock0 and now_u = clock0u and get = get_UInt32 and ptr = ptr_UInt32
      and idx = 0 and ids = "[1]" and out = "[0]" and d' = "cache1\<lparr>rnd_engine := 3\<rparr>"
      and out' = "[7]" and i = 0
      and now_o = clock0 and now_p = clock0 and now_v = clock0u and idx_s = 1
      and ids_s = "[1]" and col = empty_column and d'' = "cache1\<lparr>rnd_engine := 3\<rparr>"
      and col' = "\<lparr>chars = [97, 0], offsets = [2]\<rparr>" and j = 0]
  from T have c1: "\<forall>now. outdated ?env cache5 now 1" by blast
  from T g have c2: "\<exists>m req. 1 \<in> set req \<and>
      update ?env clock0u cache5 req (record_value ptr_UInt32 0) Map.empty
        = (cache1\<lparr>rnd_engine := 3\<rparr>, Inr m) \<and>
      [7] ! 0 = (case m 1 of Some v \<Rightarrow> v
                 | None \<Rightarrow> get_UInt32 (null_values (attributes cache5 ! 0)))"
    by simp
  from T s have c3: "\<exists>m req n ss. 1 \<in> set req \<and>
      update ?env clock0u cache5 req (on_cell_updated_string 1) (Map.empty, 0)
        = (cache1\<lparr>rnd_engine := 3\<rparr>, Inr (m, n)) \<and>
      \<lparr>chars = [97, 0], offsets = [2]\<rparr> = insert_rows ss empty_column \<and> length ss = length [1 :: id_t] \<and>
      ss ! 0 = (case m 1 of Some s \<Rightarrow> s
                | None \<Rightarrow> get_String (null_values (attributes cache5 ! 1)))"
    by simp
  from h1 h2 h3 h4 g s c1 c2 c3 show ?thesis by blast
qed

text \<open>
  C3 as stated fails when the source still has a row for \<open>k1\<close>. Key 1 is resident in
  \<open>cache1\<close> and key 5 shares its slot; a refresh installs key 5 there. The next read of
  key 1 is a miss and is refreshed, the source delivers \<open>x = 7\<close>, \<open>s = ''a''\<close>, and
  the read returns these values where the null values are \<open>0\<close> and \<open>''n''\<close>.
\<close>

theorem evicted_key_read_returns_refreshed_value:
  "getCellIdx (env0 [row_block 1 7 [97]]) cache1 1 = getCellIdx (env0 [row_block 1 7 [97]]) cache1 5 \<and>
   cell_id (cells cache1 ! unat (getCellIdx (env0 [row_block 1 7 [97]]) cache1 1)) = 1 \<and>
   update_row (env0 [row_block 1 7 [97]]) 100 (row_block 5 9 [98]) 0 5 cache1 = (cache5, Inr 1) \<and>
   snd (getUInt32 (env0 [row_block 1 7 [97]]) clock0 clock0u cache5 ''x'' [1] [0]) = Inr [7] \<and>
   get_UInt32 (null_values (attributes cache5 ! 0)) = 0 \<and>
   snd (getString (env0 [row_block 1 7 [97]]) clock0 clock0 clock0u cache5 ''s'' [1] empty_column)
     = Inr \<lparr>chars = [97, 0], offsets = [2]\<rparr> \<and>
   get_String (null_values (attributes cache5 ! 1)) = [110]"
  by (simp add: eval_simps cache5_def getUInt32_def empty_column_def)

subsection \<open>A row with key 0\<close>

text \<open>
  C10 at a failing input. A lookup of the keys \<open>[0, 1]\<close> on the empty cache is answered
  by a source whose block has a row for key 0; the refresh installs it, and \<open>cache_z\<close>
  is the state it leaves: slot 0 holds the id 0 and the string \<open>''z''\<close>. A later string
  lookup of \<open>[0, 1]\<close>, made when key 1 has expired, is answered by the same block: the
  refresh writes the row of key 0 to slot 0 again, the callback reads the string back from
  that slot into \<open>map\<close> under key 0, and the last loop emits it for the position of key 0.
  The lookup returns \<open>''z''\<close>, the string stored in the slot of key 0, where the null
  value of \<open>s\<close> is \<open>''n''\<close>. The scalar getter on the same input returns the null
  value for key 0.
\<close>

theorem getString_returns_row_of_key_zero:
  "fst (getString (env0 [zero_block]) clock0 clock0 clock0u cache0 ''s'' [0, 1] empty_column)
     = cache_z \<and>
   cell_id (cells cache_z ! unat (getCellIdx (env0 [zero_block]) cache_z 0)) = 0 \<and>
   resident (env0 [zero_block]) cache_z (ptr_StringRef (arrays (attributes cache_z ! 1))) 0
     = Inr [122] \<and>
   get_String (null_values (attributes cache_z ! 1)) = [110] \<and>
   snd (getString (env0 [zero_block]) clock_late clock_late clock0u cache_z ''s'' [0, 1]
          empty_column)
     = Inr \<lparr>chars = [122, 0, 97, 0], offsets = [2, 4]\<rparr> \<and>
   rows \<lparr>chars = [122, 0, 97, 0], offsets = [2, 4]\<rparr> = [[122], [97]] \<and>
   snd (getUInt32 (env0 [zero_block]) clock_late clock0u cache_z ''x'' [0, 1] [3, 3])
     = Inr [0, 7]"
  by (simp add: eval_simps cache_z_def zero_block_def empty_column_def rows_def getUInt32_def
      resident_def clock_late_def)

text \<open>
  What holds of a row with key 0 in every state. When the refresh installs a row of key 0
  (\<open>update_row\<close> returns the slot \<open>c\<close> and the state \<open>dd\<close>), \<open>c\<close> is the slot
  of key 0 and its cell holds the id 0, so every non-zero key of that slot is outdated at
  every instant. A later scalar lookup that returns writes the null value at every position
  of key 0, and each of its values is the null value, a value delivered by the lookup's own
  refresh, or the value resident in a slot other than \<open>c\<close>. Each row of a later string
  lookup that returns is the null value, a string delivered by the lookup's own refresh
  under the key of the position, or the string resident for a non-zero key in a slot other
  than \<open>c\<close>.
\<close>

theorem key_zero_row_is_not_read:
  assumes inst: "update_row env t block r 0 d = (dd, Inr c)"
  shows "c = unat (getCellIdx env d 0) \<and> c < length (cells dd) \<and>
    cell_id (cells dd ! c) = 0 \<and>
    (\<forall>k now. k \<noteq> 0 \<and> unat (getCellIdx env dd k) = c \<longrightarrow> outdated env dd now k) \<and>
    (getItems env now_r now_u get ptr dd idx ids out = (d', Inr out') \<and> i < length ids \<longrightarrow>
       (ids ! i = 0 \<longrightarrow> out' ! i = get (null_values (attributes dd ! idx))) \<and>
       (\<exists>m. refresh_of env now_r now_u ptr idx dd ids d' m \<and>
          (out' ! i = get (null_values (attributes dd ! idx)) \<or>
           m (ids ! i) = Some (out' ! i) \<or>
           unat (getCellIdx env dd (ids ! i)) \<noteq> c \<and>
           load (ptr (arrays (attributes dd ! idx))) (unat (getCellIdx env dd (ids ! i)))
             = Inr (out' ! i)))) \<and>
    (getItems_String env now_o now_p now_v dd idx_s ids_s col = (d'', Inr col') \<longrightarrow>
       (\<exists>m ss. (d'' = dd \<and> m = Map.empty \<and> col' = insert_rows ss col \<or>
                 string_refresh_of env now_p now_v idx_s dd ids_s d'' m \<and>
                 col' = insert_rows ss empty_column) \<and>
          length ss = length ids_s \<and>
          (\<forall>j < length ids_s.
             ss ! j = get_String (null_values (attributes dd ! idx_s)) \<or>
             m (ids_s ! j) = Some (ss ! j) \<or>
             ids_s ! j \<noteq> 0 \<and> unat (getCellIdx env dd (ids_s ! j)) \<noteq> c \<and>
             resident env dd (ptr_StringRef (arrays (attributes dd ! idx_s))) (ids_s ! j)
               = Inr (ss ! j))))"
proof -
  from update_row_cell [OF inst] have
    c: "c = unat (getCellIdx env d 0)" and len: "c < length (cells dd)" and
    id: "cell_id (cells dd ! c) = 0"
    by blast+
  have evict: "outdated env dd now k" if "k \<noteq> 0" "unat (getCellIdx env dd k) = c" for k now
    using that id by (simp add: outdated_def)
  have away: "unat (getCellIdx env dd k) \<noteq> c"
    if "k \<noteq> 0" "cell_id (cells dd ! unat (getCellIdx env dd k)) = k" for k
    using that id by auto
  have scalar: "(ids ! i = 0 \<longrightarrow> out' ! i = get (null_values (attributes dd ! idx))) \<and>
       (\<exists>m. refresh_of env now_r now_u ptr idx dd ids d' m \<and>
          (out' ! i = get (null_values (attributes dd ! idx)) \<or>
           m (ids ! i) = Some (out' ! i) \<or>
           unat (getCellIdx env dd (ids ! i)) \<noteq> c \<and>
           load (ptr (arrays (attributes dd ! idx))) (unat (getCellIdx env dd (ids ! i)))
             = Inr (out' ! i)))"
    if g: "getItems env now_r now_u get ptr dd idx ids out = (d', Inr out')"
      and i: "i < length ids"
  proof -
    from getItems_values [OF g] obtain m where
      r: "refresh_of env now_r now_u ptr idx dd ids d' m" and
      v: "\<forall>i < length ids. value_for env now_r dd (get (null_values (attributes dd ! idx)))
              (ptr (arrays (attributes dd ! idx))) m ids i (out' ! i)"
      by blast
    from v i have vi: "value_for env now_r dd (get (null_values (attributes dd ! idx)))
              (ptr (arrays (attributes dd ! idx))) m ids i (out' ! i)" by blast
    have z: "ids ! i = 0 \<longrightarrow> out' ! i = get (null_values (attributes dd ! idx))"
      using vi by (simp add: value_for_def)
    have "out' ! i = get (null_values (attributes dd ! idx)) \<or>
           m (ids ! i) = Some (out' ! i) \<or>
           unat (getCellIdx env dd (ids ! i)) \<noteq> c \<and>
           load (ptr (arrays (attributes dd ! idx))) (unat (getCellIdx env dd (ids ! i)))
             = Inr (out' ! i)"
    proof (cases "ids ! i = 0")
      case True
      with z show ?thesis by simp
    next
      case nz: False
      show ?thesis
      proof (cases "miss env now_r dd ids i")
        case True
        with vi nz show ?thesis by (auto simp: value_for_def split: option.splits)
      next
        case False
        from hit_slot_holds_key [OF nz False refl]
        have "unat (getCellIdx env dd (ids ! i)) \<noteq> c" using away nz by blast
        with vi nz False show ?thesis by (simp add: value_for_def)
      qed
    qed
    with z r show ?thesis by blast
  qed
  have rows_ok: "\<forall>j < length ids_s.
             ss ! j = get_String (null_values (attributes dd ! idx_s)) \<or>
             m (ids_s ! j) = Some (ss ! j) \<or>
             ids_s ! j \<noteq> 0 \<and> unat (getCellIdx env dd (ids_s ! j)) \<noteq> c \<and>
             resident env dd (ptr_StringRef (arrays (attributes dd ! idx_s))) (ids_s ! j)
               = Inr (ss ! j)"
    if rf: "rows_for env now dd (get_String (null_values (attributes dd ! idx_s)))
               (ptr_StringRef (arrays (attributes dd ! idx_s))) m ids_s ss"
      and del: "\<forall>j < length ids_s. \<forall>x. m (ids_s ! j) = Some x \<longrightarrow> ss ! j = x"
    for now m ss
  proof (intro allI impI)
    fix j assume j: "j < length ids_s"
    let ?b = "\<forall>j' < length ids_s. ids_s ! j' = ids_s ! j \<longrightarrow> miss env now dd ids_s j'"
    from rows_for_row [OF rf j]
    have "row_for env dd (get_String (null_values (attributes dd ! idx_s)))
            (ptr_StringRef (arrays (attributes dd ! idx_s))) m (ids_s ! j) ?b (ss ! j)" .
    moreover from del j have "\<forall>x. m (ids_s ! j) = Some x \<longrightarrow> ss ! j = x" by blast
    ultimately have "ss ! j = get_String (null_values (attributes dd ! idx_s)) \<or>
        m (ids_s ! j) = Some (ss ! j) \<or>
        (ids_s ! j \<noteq> 0 \<and> \<not> ?b \<and>
         resident env dd (ptr_StringRef (arrays (attributes dd ! idx_s))) (ids_s ! j) = Inr (ss ! j))"
      by (rule row_for_cases)
    then consider
      "ss ! j = get_String (null_values (attributes dd ! idx_s))" |
      "m (ids_s ! j) = Some (ss ! j)" |
      "ids_s ! j \<noteq> 0" "\<not> ?b"
        "resident env dd (ptr_StringRef (arrays (attributes dd ! idx_s))) (ids_s ! j) = Inr (ss ! j)"
      by blast
    then show "ss ! j = get_String (null_values (attributes dd ! idx_s)) \<or>
             m (ids_s ! j) = Some (ss ! j) \<or>
             ids_s ! j \<noteq> 0 \<and> unat (getCellIdx env dd (ids_s ! j)) \<noteq> c \<and>
             resident env dd (ptr_StringRef (arrays (attributes dd ! idx_s))) (ids_s ! j)
               = Inr (ss ! j)"
    proof cases
      case 1 then show ?thesis by simp
    next
      case 2 then show ?thesis by simp
    next
      case 3
      from 3(2) obtain j' where j': "j' < length ids_s" "ids_s ! j' = ids_s ! j"
        "\<not> miss env now dd ids_s j'" by blast
      from hit_slot_holds_key [OF 3(1) j'(3) j'(2)] away 3(1)
      have "unat (getCellIdx env dd (ids_s ! j)) \<noteq> c" by blast
      with 3 show ?thesis by simp
    qed
  qed
  have str: "\<exists>m ss. (d'' = dd \<and> m = Map.empty \<and> col' = insert_rows ss col \<or>
                 string_refresh_of env now_p now_v idx_s dd ids_s d'' m \<and>
                 col' = insert_rows ss empty_column) \<and>
          length ss = length ids_s \<and>
          (\<forall>j < length ids_s.
             ss ! j = get_String (null_values (attributes dd ! idx_s)) \<or>
             m (ids_s ! j) = Some (ss ! j) \<or>
             ids_s ! j \<noteq> 0 \<and> unat (getCellIdx env dd (ids_s ! j)) \<noteq> c \<and>
             resident env dd (ptr_StringRef (arrays (attributes dd ! idx_s))) (ids_s ! j)
               = Inr (ss ! j))"
    if g: "getItems_String env now_o now_p now_v dd idx_s ids_s col = (d'', Inr col')"
  proof -
    from getItems_String_rows [OF g] consider
      ss where "d'' = dd" "col' = insert_rows ss col"
        "rows_for env now_o dd (get_String (null_values (attributes dd ! idx_s)))
               (ptr_StringRef (arrays (attributes dd ! idx_s))) Map.empty ids_s ss" |
      m ss where "string_refresh_of env now_p now_v idx_s dd ids_s d'' m"
        "col' = insert_rows ss empty_column"
        "rows_for env now_p dd (get_String (null_values (attributes dd ! idx_s)))
               (ptr_StringRef (arrays (attributes dd ! idx_s))) m ids_s ss"
        "\<forall>j < length ids_s. \<forall>x. m (ids_s ! j) = Some x \<longrightarrow> ss ! j = x"
      by blast
    then show ?thesis
    proof cases
      case 1
      have "\<forall>j < length ids_s. \<forall>x. Map.empty (ids_s ! j) = Some x \<longrightarrow> ss ! j = x" by simp
      from rows_ok [OF 1(3) this] rows_for_length [OF 1(3)] 1(1,2) show ?thesis by blast
    next
      case 2
      from rows_ok [OF 2(3,4)] rows_for_length [OF 2(3)] 2(1,2) show ?thesis by blast
    qed
  qed
  from c len id evict scalar str show ?thesis by blast
qed

theorem key_zero_row_is_not_read_witness:
  "update_row (env0 [zero_block]) 100 zero_block 0 0 cache_z
     = (cache_z\<lparr>rnd_engine := 3\<rparr>, Inr 0) \<and>
   getItems (env0 [zero_block]) clock0 clock0u get_UInt32 ptr_UInt32
       (cache_z\<lparr>rnd_engine := 3\<rparr>) 0 [0, 4] [3, 3]
     = (cache_z\<lparr>rnd_engine := 5\<rparr>, Inr [0, 0]) \<and>
   getItems_String (env0 [zero_block]) clock0 clock0 clock0u
       (cache_z\<lparr>rnd_engine := 3\<rparr>) 1 [4] empty_column
     = (cache_z\<lparr>rnd_engine := 5\<rparr>, Inr \<lparr>chars = [110, 0], offsets = [2]\<rparr>) \<and>
   0 = unat (getCellIdx (env0 [zero_block]) cache_z 0) \<and>
   cell_id (cells (cache_z\<lparr>rnd_engine := 3\<rparr>) ! 0) = 0 \<and>
   unat (getCellIdx (env0 [zero_block]) (cache_z\<lparr>rnd_engine := 3\<rparr>) 4) = 0 \<and>
   (\<forall>now. outdated (env0 [zero_block]) (cache_z\<lparr>rnd_engine := 3\<rparr>) now 4) \<and>
   [0, 0] ! 0 = get_UInt32 (null_values (attributes (cache_z\<lparr>rnd_engine := 3\<rparr>) ! 0)) \<and>
   (\<exists>m ss. (cache_z\<lparr>rnd_engine := 5\<rparr> = cache_z\<lparr>rnd_engine := 3\<rparr> \<and> m = Map.empty \<and>
               \<lparr>chars = [110, 0], offsets = [2]\<rparr> = insert_rows ss empty_column \<or>
             string_refresh_of (env0 [zero_block]) clock0 clock0u 1
               (cache_z\<lparr>rnd_engine := 3\<rparr>) [4] (cache_z\<lparr>rnd_engine := 5\<rparr>) m \<and>
             \<lparr>chars = [110, 0], offsets = [2]\<rparr> = insert_rows ss empty_column) \<and>
      length ss = length [4 :: id_t] \<and>
      (ss ! 0 = get_String (null_values (attributes (cache_z\<lparr>rnd_engine := 3\<rparr>) ! 1)) \<or>
       m 4 = Some (ss ! 0) \<or>
       unat (getCellIdx (env0 [zero_block]) (cache_z\<lparr>rnd_engine := 3\<rparr>) 4) \<noteq> 0))"
proof -
  let ?env = "env0 [zero_block]"
  let ?dd = "cache_z\<lparr>rnd_engine := 3\<rparr>"
  let ?d' = "cache_z\<lparr>rnd_engine := 5\<rparr>"
  let ?col = "\<lparr>chars = [110, 0], offsets = [2]\<rparr>"
  have h: "update_row ?env 100 zero_block 0 0 cache_z = (?dd, Inr 0)"
    by (simp add: eval_simps cache_z_def zero_block_def)
  have g: "getItems ?env clock0 clock0u get_UInt32 ptr_UInt32 ?dd 0 [0, 4] [3, 3]
     = (?d', Inr [0, 0])"
    by (simp add: eval_simps cache_z_def zero_block_def)
  have s: "getItems_String ?env clock0 clock0 clock0u ?dd 1 [4] empty_column = (?d', Inr ?col)"
    by (simp add: eval_simps cache_z_def zero_block_def empty_column_def)
  have slot: "unat (getCellIdx ?env ?dd 4) = 0"
    by (simp add: eval_simps cache_z_def)
  note T = key_zero_row_is_not_read [OF h,
    where now_r = clock0 and now_u = clock0u and get = get_UInt32 and ptr = ptr_UInt32
      and idx = 0 and ids = "[0, 4]" and out = "[3, 3]" and d' = ?d' and out' = "[0, 0]"
      and i = 0 and now_o = clock0 and now_p = clock0 and now_v = clock0u and idx_s = 1
      and ids_s = "[4]" and col = empty_column and d'' = ?d' and col' = ?col]
  from T have c1: "0 = unat (getCellIdx ?env cache_z 0)" and c2: "cell_id (cells ?dd ! 0) = 0"
    by blast+
  from T slot have c3: "\<forall>now. outdated ?env ?dd now 4" by simp
  from T g have c4: "[0, 0] ! 0 = get_UInt32 (null_values (attributes ?dd ! 0))" by simp
  from T s obtain m ss where
    r: "?d' = ?dd \<and> m = Map.empty \<and> ?col = insert_rows ss empty_column \<or>
        string_refresh_of ?env clock0 clock0u 1 ?dd [4] ?d' m \<and>
        ?col = insert_rows ss empty_column" and
    l: "length ss = length [4 :: id_t]" and
    a: "\<forall>j < length [4 :: id_t].
          ss ! j = get_String (null_values (attributes ?dd ! 1)) \<or>
          m ([4] ! j) = Some (ss ! j) \<or>
          [4] ! j \<noteq> (0 :: id_t) \<and> unat (getCellIdx ?env ?dd ([4] ! j)) \<noteq> 0 \<and>
          resident ?env ?dd (ptr_StringRef (arrays (attributes ?dd ! 1))) ([4] ! j) = Inr (ss ! j)"
    by blast
  from a have a0: "ss ! 0 = get_String (null_values (attributes ?dd ! 1)) \<or>
       m 4 = Some (ss ! 0) \<or> unat (getCellIdx ?env ?dd 4) \<noteq> 0"
    by auto
  from r l a0 have c5: "\<exists>m ss. (?d' = ?dd \<and> m = Map.empty \<and> ?col = insert_rows ss empty_column \<or>
             string_refresh_of ?env clock0 clock0u 1 ?dd [4] ?d' m \<and>
             ?col = insert_rows ss empty_column) \<and>
      length ss = length [4 :: id_t] \<and>
      (ss ! 0 = get_String (null_values (attributes ?dd ! 1)) \<or>
       m 4 = Some (ss ! 0) \<or> unat (getCellIdx ?env ?dd 4) \<noteq> 0)"
    by blast
  from h g s c1 c2 slot c3 c4 c5 show ?thesis by blast
qed

(*THMS-END*)

end
